theory Spec2Isabelle
  imports Main "HOL-Library.Word"
begin

section \<open>The buffer cache of kernel/bio.c (hashed buckets with a timestamp scan)\<close>

text \<open>
  The embedding follows the variant of \<^verbatim>\<open>kernel/bio.c\<close> that keeps every buffer in one of
  \<^verbatim>\<open>MODNUM\<close> hash buckets, each a circular doubly linked list around a sentinel
  \<^verbatim>\<open>bhashmap[i].list\<close>, and that picks the eviction victim by scanning all buckets for
  the unreferenced buffer with the smallest \<^verbatim>\<open>timestamp\<close>.

  The embedding is sequential: one call runs at a time, so the spin locks
  (\<^verbatim>\<open>acquire\<close>/\<^verbatim>\<open>release\<close> on \<^verbatim>\<open>lock\<close>, \<^verbatim>\<open>lock_add\<close>, \<^verbatim>\<open>lock_del\<close>, \<^verbatim>\<open>tickslock\<close>)
  have no effect on the state and are left out. The one place where other processors
  are given room is the gap between the eviction scan and its re-validation in
  \<^verbatim>\<open>bget\<close>, see \<open>bget_evict\<close> below.
\<close>

subsection \<open>Memory\<close>

text \<open>
  A \<^verbatim>\<open>struct buf *\<close> is the null pointer, the address of \<^verbatim>\<open>bcache.buf[i]\<close>
  or the address of the sentinel \<^verbatim>\<open>bhashmap[i].list\<close>.
\<close>

datatype ptr = Null | Slot nat | Head nat

text \<open>
  \<^verbatim>\<open>struct buf\<close>, with the fields that this variant of bio.c reads or writes. The
  \<^verbatim>\<open>int valid\<close> only ever holds 0 or 1 and is a \<open>bool\<close>; the \<^verbatim>\<open>uint\<close> fields are
  32-bit words, so that \<^verbatim>\<open>refcnt--\<close> at 0 wraps around as it does in C.

  Modelled from the spec: the sleep lock \<^verbatim>\<open>struct sleeplock lock\<close> (kernel/sleeplock.c is
  not among the sources) is the exclusive content lock of the slot; the field \<open>lock\<close>
  holds the process id of its holder, \<open>None\<close> when it is free.
\<close>

record buf =
  valid :: bool
  dev :: "32 word"
  blockno :: "32 word"
  lock :: "nat option"
  refcnt :: "32 word"
  timestamp :: "32 word"
  bprev :: ptr
  bnext :: ptr
  data :: "8 word list"

text \<open>
  The kernel state that bio.c touches: the memory holding the buffers and the bucket
  sentinels, the global \<^verbatim>\<open>ticks\<close> counter, and the device behind \<^verbatim>\<open>virtio_disk_rw\<close>.
  \<open>xfers\<close> is the log of the calls of \<^verbatim>\<open>virtio_disk_rw(b, write)\<close>, oldest first.
\<close>

record kstate =
  mem :: "ptr \<Rightarrow> buf"
  ticks :: "32 word"
  disk :: "32 word \<times> 32 word \<Rightarrow> 8 word list"
  xfers :: "(ptr \<times> bool) list"

text \<open>
  How a call can end without returning a value: a \<^verbatim>\<open>panic\<close> with its message, or a
  fault on dereferencing the null pointer. A call that never returns (it sleeps on a
  content lock that nobody releases, or it spins) has the value \<open>None\<close>.
\<close>

datatype error = Panic string | Fault

type_synonym 'a result = "(error + 'a) option"

definition MODNUM :: nat where
  "MODNUM = 19"

definition bhashgetline :: "32 word \<Rightarrow> nat" where
  "bhashgetline bn = unat bn mod MODNUM"

definition set_bnext :: "ptr \<Rightarrow> ptr \<Rightarrow> (ptr \<Rightarrow> buf) \<Rightarrow> (ptr \<Rightarrow> buf)" where
  "set_bnext p v m = m(p := (m p)\<lparr>bnext := v\<rparr>)"

definition set_bprev :: "ptr \<Rightarrow> ptr \<Rightarrow> (ptr \<Rightarrow> buf) \<Rightarrow> (ptr \<Rightarrow> buf)" where
  "set_bprev p v m = m(p := (m p)\<lparr>bprev := v\<rparr>)"

subsection \<open>Collaborators outside bio.c\<close>

text \<open>
  Modelled from the spec: \<^verbatim>\<open>holdingsleep\<close>, \<^verbatim>\<open>acquiresleep\<close> and \<^verbatim>\<open>releasesleep\<close>
  (kernel/sleeplock.c is not among the sources). The content lock is exclusive; the
  caller, process \<open>pid\<close>, holds it when it is the recorded holder; acquiring a lock that
  is held parks the caller until the holder releases it, which in a sequential run
  never happens.
\<close>

definition holdingsleep :: "nat \<Rightarrow> ptr \<Rightarrow> kstate \<Rightarrow> bool" where
  "holdingsleep pid b s = (lock (mem s b) = Some pid)"

definition acquiresleep :: "nat \<Rightarrow> ptr \<Rightarrow> kstate \<Rightarrow> kstate option" where
  "acquiresleep pid b s =
     (if lock (mem s b) \<noteq> None then None
      else Some (s\<lparr>mem := (mem s)(b := (mem s b)\<lparr>lock := Some pid\<rparr>)\<rparr>))"

definition releasesleep :: "ptr \<Rightarrow> kstate \<Rightarrow> kstate" where
  "releasesleep b s = s\<lparr>mem := (mem s)(b := (mem s b)\<lparr>lock := None\<rparr>)\<rparr>"

text \<open>
  Modelled from the spec: \<^verbatim>\<open>virtio_disk_rw(b, write)\<close>, the Block Transfer Port
  (kernel/virtio_disk.c is not among the sources): synchronous and infallible, it reads
  the block at \<open>(dev, blockno)\<close> of the slot into the payload, or writes the payload to
  that location.
\<close>

definition virtio_disk_rw :: "ptr \<Rightarrow> bool \<Rightarrow> kstate \<Rightarrow> kstate" where
  "virtio_disk_rw b write s =
     (let k = (dev (mem s b), blockno (mem s b)) in
      if write
      then s\<lparr>disk := (disk s)(k := data (mem s b)), xfers := xfers s @ [(b, True)]\<rparr>
      else s\<lparr>mem := (mem s)(b := (mem s b)\<lparr>data := disk s k\<rparr>),
             xfers := xfers s @ [(b, False)]\<rparr>)"

subsection \<open>bwrite, brelse, bpin, bunpin\<close>

definition bwrite :: "nat \<Rightarrow> ptr \<Rightarrow> kstate \<Rightarrow> error + kstate" where
  "bwrite pid b s =
     (if b = Null then Inl Fault
      else if \<not> holdingsleep pid b s then Inl (Panic ''bwrite'')
      else Inr (virtio_disk_rw b True s))"

definition brelse :: "nat \<Rightarrow> ptr \<Rightarrow> kstate \<Rightarrow> error + kstate" where
  "brelse pid b s =
     (if b = Null then Inl Fault
      else if \<not> holdingsleep pid b s then Inl (Panic ''brelse'')
      else
        let s1 = releasesleep b s;
            timestamp' = ticks s1;
            m2 = (mem s1)(b := (mem s1 b)\<lparr>refcnt := refcnt (mem s1 b) - 1\<rparr>);
            m3 = m2(b := (m2 b)\<lparr>timestamp := timestamp'\<rparr>)
        in Inr (s1\<lparr>mem := m3\<rparr>))"

definition bpin :: "ptr \<Rightarrow> kstate \<Rightarrow> error + kstate" where
  "bpin b s =
     (if b = Null then Inl Fault
      else Inr (s\<lparr>mem := (mem s)(b := (mem s b)\<lparr>refcnt := refcnt (mem s b) + 1\<rparr>)\<rparr>))"

definition bunpin :: "ptr \<Rightarrow> kstate \<Rightarrow> error + kstate" where
  "bunpin b s =
     (if b = Null then Inl Fault
      else Inr (s\<lparr>mem := (mem s)(b := (mem s b)\<lparr>refcnt := refcnt (mem s b) - 1\<rparr>)\<rparr>))"

subsection \<open>The hash buckets\<close>

text \<open>
  \<^verbatim>\<open>bhashadd(h, buf)\<close> links \<open>buf\<close> in right behind the sentinel of bucket \<open>h\<close>. The
  bucket \<^verbatim>\<open>&bhashmap[h]\<close> is passed as its index.
\<close>

definition bhashadd :: "nat \<Rightarrow> ptr \<Rightarrow> kstate \<Rightarrow> error + kstate" where
  "bhashadd h b s =
     (if b = Null then Inl Fault
      else
        let m1 = set_bnext b (bnext (mem s (Head h))) (mem s);
            m2 = set_bprev b (Head h) m1;
            n = bnext (m2 (Head h))
        in if n = Null then Inl Fault
           else
             let m3 = set_bprev n b m2;
                 m4 = set_bnext (Head h) b m3
             in Inr (s\<lparr>mem := m4\<rparr>))"

text \<open>
  The loop of \<^verbatim>\<open>bhashget\<close>: from \<open>b\<close> along \<^verbatim>\<open>next\<close> until the sentinel comes round
  again. On a chain that never reaches the sentinel the loop does not return.
\<close>

partial_function (option) bhashget_walk ::
  "(ptr \<Rightarrow> buf) \<Rightarrow> ptr \<Rightarrow> 32 word \<Rightarrow> 32 word \<Rightarrow> ptr \<Rightarrow> ptr result" where
  "bhashget_walk m sentinel dv bn b =
     (if b = sentinel then Some (Inr Null)
      else if b = Null then Some (Inl Fault)
      else if dev (m b) = dv \<and> blockno (m b) = bn then Some (Inr b)
      else bhashget_walk m sentinel dv bn (bnext (m b)))"

definition bhashget :: "nat \<Rightarrow> 32 word \<Rightarrow> 32 word \<Rightarrow> kstate \<Rightarrow> ptr result" where
  "bhashget h dv bn s = bhashget_walk (mem s) (Head h) dv bn (bnext (mem s (Head h)))"

text \<open>\<^verbatim>\<open>bhashdel(h, buf)\<close> unlinks \<open>buf\<close> from its neighbours; it does not look at \<open>h\<close>.\<close>

definition bhashdel :: "nat \<Rightarrow> ptr \<Rightarrow> kstate \<Rightarrow> error + kstate" where
  "bhashdel h b s =
     (if b = Null \<or> bnext (mem s b) = Null then Inl Fault
      else
        let m1 = set_bprev (bnext (mem s b)) (bprev (mem s b)) (mem s)
        in if bprev (m1 b) = Null then Inl Fault
           else
             let m2 = set_bnext (bprev (m1 b)) (bnext (m1 b)) m1;
                 m3 = set_bprev b Null m2;
                 m4 = set_bnext b Null m3
             in Inr (s\<lparr>mem := m4\<rparr>))"

subsection \<open>binit\<close>

text \<open>
  The statics of bio.c lie in zeroed memory when the kernel starts. \<^verbatim>\<open>BSIZE\<close> (fs.h) and
  \<^verbatim>\<open>NBUF\<close> (param.h) are not among the sources and are parameters.
\<close>

definition zero_buf :: "nat \<Rightarrow> buf" where
  "zero_buf BSIZE =
     \<lparr>valid = False, dev = 0, blockno = 0, lock = None, refcnt = 0, timestamp = 0,
      bprev = Null, bnext = Null, data = replicate BSIZE 0\<rparr>"

definition boot :: "nat \<Rightarrow> (32 word \<times> 32 word \<Rightarrow> 8 word list) \<Rightarrow> kstate" where
  "boot BSIZE d = \<lparr>mem = (\<lambda>p. zero_buf BSIZE), ticks = 0, disk = d, xfers = []\<rparr>"

fun binit_heads :: "nat list \<Rightarrow> (ptr \<Rightarrow> buf) \<Rightarrow> (ptr \<Rightarrow> buf)" where
  "binit_heads [] m = m"
| "binit_heads (i # is) m =
     binit_heads is (set_bnext (Head i) (Head i) (set_bprev (Head i) (Head i) m))"

definition initsleeplock :: "ptr \<Rightarrow> kstate \<Rightarrow> kstate" where
  "initsleeplock b s = s\<lparr>mem := (mem s)(b := (mem s b)\<lparr>lock := None\<rparr>)\<rparr>"

fun binit_bufs :: "nat list \<Rightarrow> kstate \<Rightarrow> error + kstate" where
  "binit_bufs [] s = Inr s"
| "binit_bufs (i # is) s =
     (case bhashadd 0 (Slot i) (initsleeplock (Slot i) s) of
        Inl e \<Rightarrow> Inl e
      | Inr s' \<Rightarrow> binit_bufs is s')"

definition binit :: "nat \<Rightarrow> kstate \<Rightarrow> error + kstate" where
  "binit NBUF s =
     binit_bufs [0..<NBUF] (s\<lparr>mem := binit_heads [0..<MODNUM] (mem s)\<rparr>)"

subsection \<open>bget and bread\<close>

text \<open>
  The walk through one bucket of the eviction scan; \<open>acc\<close> is the pair
  \<^verbatim>\<open>(lru_b, lru_time)\<close>.
\<close>

partial_function (option) scan_walk ::
  "(ptr \<Rightarrow> buf) \<Rightarrow> ptr \<Rightarrow> ptr \<Rightarrow> ptr \<times> 32 word \<Rightarrow> (ptr \<times> 32 word) result" where
  "scan_walk m sentinel b acc =
     (if b = sentinel then Some (Inr acc)
      else if b = Null then Some (Inl Fault)
      else scan_walk m sentinel (bnext (m b))
             (if refcnt (m b) = 0 \<and> timestamp (m b) < snd acc
              then (b, timestamp (m b)) else acc))"

fun scan_buckets ::
  "(ptr \<Rightarrow> buf) \<Rightarrow> nat list \<Rightarrow> ptr \<times> 32 word \<Rightarrow> (ptr \<times> 32 word) result" where
  "scan_buckets m [] acc = Some (Inr acc)"
| "scan_buckets m (i # is) acc =
     (case scan_walk m (Head i) (bnext (m (Head i))) acc of
        None \<Rightarrow> None
      | Some (Inl e) \<Rightarrow> Some (Inl e)
      | Some (Inr acc') \<Rightarrow> scan_buckets m is acc')"

definition scan :: "kstate \<Rightarrow> (ptr \<times> 32 word) result" where
  "scan s = scan_buckets (mem s) [0..<MODNUM] (Null, 0xFFFFFFFF)"

text \<open>
  The tail of the miss path, from \<^verbatim>\<open>bhashdel(lru_h, lru_b)\<close> to the return: unlink the
  victim, fill in the new identity, link it into the bucket of the new block number and
  take its content lock.
\<close>

definition recycle ::
  "nat \<Rightarrow> 32 word \<Rightarrow> 32 word \<Rightarrow> ptr \<Rightarrow> kstate \<Rightarrow> (ptr \<times> kstate) result" where
  "recycle pid dv bn lru_b s =
     (case bhashdel (bhashgetline (blockno (mem s lru_b))) lru_b s of
        Inl e \<Rightarrow> Some (Inl e)
      | Inr s1 \<Rightarrow>
          (let b = lru_b;
               m2 = (mem s1)(b := (mem s1 b)\<lparr>dev := dv\<rparr>);
               m3 = m2(b := (m2 b)\<lparr>blockno := bn\<rparr>);
               m4 = m3(b := (m3 b)\<lparr>valid := False\<rparr>);
               m5 = m4(b := (m4 b)\<lparr>refcnt := 1\<rparr>)
           in (case bhashadd (bhashgetline bn) b (s1\<lparr>mem := m5\<rparr>) of
                 Inl e \<Rightarrow> Some (Inl e)
               | Inr s6 \<Rightarrow>
                   (case acquiresleep pid b s6 of
                      None \<Rightarrow> None
                    | Some s7 \<Rightarrow> Some (Inr (b, s7))))))"

text \<open>
  The \<^verbatim>\<open>while (1)\<close> loop of the miss path. Between the scan, which lets go of every
  bucket lock, and the re-validation under \<^verbatim>\<open>lru_h->lock\<close>, other processors can take
  a reference to the candidate or release it. \<open>env n\<close> is what they do to the state in
  that gap of round \<open>n\<close> of the loop; a sequential run has \<open>env = quiet\<close>.
\<close>

partial_function (option) bget_evict ::
  "(nat \<Rightarrow> kstate \<Rightarrow> kstate) \<Rightarrow> nat \<Rightarrow> nat \<Rightarrow> 32 word \<Rightarrow> 32 word \<Rightarrow> kstate
     \<Rightarrow> (ptr \<times> kstate) result" where
  "bget_evict env n pid dv bn s =
     (case scan s of
        None \<Rightarrow> None
      | Some (Inl e) \<Rightarrow> Some (Inl e)
      | Some (Inr (lru_b, lru_time)) \<Rightarrow>
          if lru_b = Null then Some (Inl (Panic ''bget: no buffers''))
          else
            let s1 = env n s
            in if refcnt (mem s1 lru_b) \<noteq> 0 \<or> timestamp (mem s1 lru_b) \<noteq> lru_time
               then bget_evict env (Suc n) pid dv bn s1
               else recycle pid dv bn lru_b s1)"

definition quiet :: "nat \<Rightarrow> kstate \<Rightarrow> kstate" where
  "quiet n s = s"

definition bget ::
  "(nat \<Rightarrow> kstate \<Rightarrow> kstate) \<Rightarrow> nat \<Rightarrow> 32 word \<Rightarrow> 32 word \<Rightarrow> kstate
     \<Rightarrow> (ptr \<times> kstate) result" where
  "bget env pid dv bn s =
     (let h = bhashgetline bn in
      case bhashget h dv bn s of
        None \<Rightarrow> None
      | Some (Inl e) \<Rightarrow> Some (Inl e)
      | Some (Inr b) \<Rightarrow>
          if b \<noteq> Null
          then
            (let s1 = s\<lparr>mem := (mem s)(b := (mem s b)\<lparr>refcnt := refcnt (mem s b) + 1\<rparr>)\<rparr>
             in (case acquiresleep pid b s1 of
                   None \<Rightarrow> None
                 | Some s2 \<Rightarrow> Some (Inr (b, s2))))
          else bget_evict env 0 pid dv bn s)"

definition bread ::
  "(nat \<Rightarrow> kstate \<Rightarrow> kstate) \<Rightarrow> nat \<Rightarrow> 32 word \<Rightarrow> 32 word \<Rightarrow> kstate
     \<Rightarrow> (ptr \<times> kstate) result" where
  "bread env pid dv bn s =
     (case bget env pid dv bn s of
        None \<Rightarrow> None
      | Some (Inl e) \<Rightarrow> Some (Inl e)
      | Some (Inr (b, s1)) \<Rightarrow>
          if \<not> valid (mem s1 b)
          then
            (let s2 = virtio_disk_rw b False s1
             in Some (Inr (b, s2\<lparr>mem := (mem s2)(b := (mem s2 b)\<lparr>valid := True\<rparr>)\<rparr>)))
          else Some (Inr (b, s1)))"

subsection \<open>What the pointers mean\<close>

text \<open>
  \<open>path f p xs q\<close>: following the pointer field \<open>f\<close> from \<open>p\<close> visits exactly the
  nodes \<open>xs\<close>, in this order, and then \<open>q\<close>.
\<close>

fun path :: "(ptr \<Rightarrow> ptr) \<Rightarrow> ptr \<Rightarrow> ptr list \<Rightarrow> ptr \<Rightarrow> bool" where
  "path f p [] q = (f p = q)"
| "path f p (x # xs) q = (f p = x \<and> path f x xs q)"

text \<open>
  \<open>dll m p xs q\<close>: in memory \<open>m\<close>, \<^verbatim>\<open>next\<close> leads from \<open>p\<close> through \<open>xs\<close> to \<open>q\<close>, and
  \<^verbatim>\<open>prev\<close> leads back from \<open>q\<close> through the same nodes to \<open>p\<close>.
\<close>

definition dll :: "(ptr \<Rightarrow> buf) \<Rightarrow> ptr \<Rightarrow> ptr list \<Rightarrow> ptr \<Rightarrow> bool" where
  "dll m p xs q =
     (path (\<lambda>a. bnext (m a)) p xs q \<and> path (\<lambda>a. bprev (m a)) q (rev xs) p)"

text \<open>
  \<open>buckets m bk\<close>: bucket \<open>i\<close> is the ring of its sentinel and the slots \<open>bk i\<close>, in
  the order of the \<^verbatim>\<open>next\<close> pointers.
\<close>

definition buckets :: "(ptr \<Rightarrow> buf) \<Rightarrow> (nat \<Rightarrow> nat list) \<Rightarrow> bool" where
  "buckets m bk = (\<forall>i<MODNUM. dll m (Head i) (map Slot (bk i)) (Head i))"

text \<open>The slots in the order in which the eviction scan meets them.\<close>

definition scan_order :: "(nat \<Rightarrow> nat list) \<Rightarrow> nat list" where
  "scan_order bk = concat (map bk [0..<MODNUM])"

text \<open>
  \<open>pool_wf N bk s\<close>: the buckets are well-formed rings and every one of the \<open>N\<close> slots
  of the pool is in exactly one of them, once.
\<close>

definition pool_wf :: "nat \<Rightarrow> (nat \<Rightarrow> nat list) \<Rightarrow> kstate \<Rightarrow> bool" where
  "pool_wf N bk s =
     (buckets (mem s) bk \<and>
      (\<forall>i<MODNUM. distinct (bk i)) \<and>
      (\<forall>i<MODNUM. \<forall>j<MODNUM. i \<noteq> j \<longrightarrow> set (bk i) \<inter> set (bk j) = {}) \<and>
      (\<forall>x. (x < N) = (\<exists>i<MODNUM. x \<in> set (bk i))))"

text \<open>
  One step of the eviction scan at slot \<open>b\<close>, and the scan over a list of slots:
  \<open>acc\<close> is \<^verbatim>\<open>(lru_b, lru_time)\<close>.
\<close>

definition lru_step :: "(ptr \<Rightarrow> buf) \<Rightarrow> ptr \<times> 32 word \<Rightarrow> ptr \<Rightarrow> ptr \<times> 32 word" where
  "lru_step m acc b =
     (if refcnt (m b) = 0 \<and> timestamp (m b) < snd acc then (b, timestamp (m b)) else acc)"

definition lru_of :: "(ptr \<Rightarrow> buf) \<Rightarrow> ptr list \<Rightarrow> ptr \<times> 32 word" where
  "lru_of m bs = foldl (lru_step m) (Null, 0xFFFFFFFF) bs"

text \<open>
  What \<^verbatim>\<open>bpin\<close> and \<^verbatim>\<open>bunpin\<close> may change: \<open>only_refcnt b s s'\<close> says that \<open>s'\<close> is \<open>s\<close>
  but for the reference count of \<open>b\<close>.
\<close>

definition only_refcnt :: "ptr \<Rightarrow> kstate \<Rightarrow> kstate \<Rightarrow> bool" where
  "only_refcnt b s s' =
     ((\<forall>p. dev (mem s' p) = dev (mem s p) \<and> blockno (mem s' p) = blockno (mem s p) \<and>
           valid (mem s' p) = valid (mem s p) \<and> data (mem s' p) = data (mem s p) \<and>
           timestamp (mem s' p) = timestamp (mem s p) \<and> lock (mem s' p) = lock (mem s p) \<and>
           bnext (mem s' p) = bnext (mem s p) \<and> bprev (mem s' p) = bprev (mem s p)) \<and>
      (\<forall>p. p \<noteq> b \<longrightarrow> mem s' p = mem s p) \<and>
      (\<forall>bk. buckets (mem s') bk = buckets (mem s) bk) \<and>
      ticks s' = ticks s \<and> disk s' = disk s \<and> xfers s' = xfers s)"

text \<open>
  \<open>same_contents a b\<close>: two buffers agree in everything but their \<^verbatim>\<open>next\<close> and
  \<^verbatim>\<open>prev\<close> pointers. \<open>relinked s s'\<close>: \<open>s'\<close> is \<open>s\<close> but for such pointers.
\<close>

definition same_contents :: "buf \<Rightarrow> buf \<Rightarrow> bool" where
  "same_contents a b =
     (valid a = valid b \<and> dev a = dev b \<and> blockno a = blockno b \<and> lock a = lock b \<and>
      refcnt a = refcnt b \<and> timestamp a = timestamp b \<and> data a = data b)"

definition relinked :: "kstate \<Rightarrow> kstate \<Rightarrow> bool" where
  "relinked s s' =
     ((\<forall>p. same_contents (mem s' p) (mem s p)) \<and>
      ticks s' = ticks s \<and> disk s' = disk s \<and> xfers s' = xfers s)"

text \<open>
  \<open>is_lru m bs v\<close>: among the buffers \<open>bs\<close>, in scan order, \<open>v\<close> is the first one with
  the smallest timestamp of those with reference count 0.
\<close>

definition is_lru :: "(ptr \<Rightarrow> buf) \<Rightarrow> ptr list \<Rightarrow> ptr \<Rightarrow> bool" where
  "is_lru m bs v =
     (\<exists>as cs. bs = as @ v # cs \<and> refcnt (m v) = 0 \<and>
        (\<forall>a\<in>set as. refcnt (m a) = 0 \<longrightarrow> timestamp (m v) < timestamp (m a)) \<and>
        (\<forall>c\<in>set cs. refcnt (m c) = 0 \<longrightarrow> timestamp (m v) \<le> timestamp (m c)))"

text \<open>
  \<open>moved bk v j h\<close>: the bucket contents after slot \<open>v\<close> has left bucket \<open>j\<close> and has
  been put at the front of bucket \<open>h\<close>.
\<close>

definition moved :: "(nat \<Rightarrow> nat list) \<Rightarrow> nat \<Rightarrow> nat \<Rightarrow> nat \<Rightarrow> (nat \<Rightarrow> nat list)" where
  "moved bk v j h =
     (let bk1 = bk(j := remove1 v (bk j)) in bk1(h := v # bk1 h))"

text \<open>The buckets after \<^verbatim>\<open>binit\<close>: every slot is in bucket 0, the last one added first.\<close>

definition bk_init :: "nat \<Rightarrow> nat \<Rightarrow> nat list" where
  "bk_init N i = (if i = 0 then rev [0..<N] else [])"

text \<open>\<open>hashed bk s\<close>: every slot is in the bucket that its block number selects.\<close>

definition hashed :: "(nat \<Rightarrow> nat list) \<Rightarrow> kstate \<Rightarrow> bool" where
  "hashed bk s =
     (\<forall>i<MODNUM. \<forall>x\<in>set (bk i). bhashgetline (blockno (mem s (Slot x))) = i)"

text \<open>The identity of a slot, and the slots of the pool that carry a given identity.\<close>

definition ident :: "kstate \<Rightarrow> nat \<Rightarrow> 32 word \<times> 32 word" where
  "ident s x = (dev (mem s (Slot x)), blockno (mem s (Slot x)))"

definition carriers :: "nat \<Rightarrow> kstate \<Rightarrow> 32 word \<times> 32 word \<Rightarrow> nat set" where
  "carriers N s k = {x. x < N \<and> ident s x = k}"

text \<open>
  The states that sequential calls of the operations of bio.c reach from \<^verbatim>\<open>binit\<close> on
  zeroed memory. The clock interrupt, which is outside bio.c, may set \<^verbatim>\<open>ticks\<close> to
  anything between two calls.
\<close>

inductive reachable :: "nat \<Rightarrow> kstate \<Rightarrow> bool" for N :: nat where
  r_binit: "binit N (boot BSIZE d) = Inr s \<Longrightarrow> reachable N s"
| r_ticks: "reachable N s \<Longrightarrow> reachable N (s\<lparr>ticks := t\<rparr>)"
| r_bget: "reachable N s \<Longrightarrow> bget quiet pid dv bn s = Some (Inr (b, s')) \<Longrightarrow> reachable N s'"
| r_bread: "reachable N s \<Longrightarrow> bread quiet pid dv bn s = Some (Inr (b, s')) \<Longrightarrow> reachable N s'"
| r_bwrite: "reachable N s \<Longrightarrow> bwrite pid b s = Inr s' \<Longrightarrow> reachable N s'"
| r_brelse: "reachable N s \<Longrightarrow> brelse pid b s = Inr s' \<Longrightarrow> reachable N s'"
| r_bpin: "reachable N s \<Longrightarrow> bpin b s = Inr s' \<Longrightarrow> reachable N s'"
| r_bunpin: "reachable N s \<Longrightarrow> bunpin b s = Inr s' \<Longrightarrow> reachable N s'"

text \<open>
  \<open>pool_inv N s\<close>: the pool is well-formed, every slot is in the bucket of its block
  number, and two different slots share an identity only when it is \<open>(0, 0)\<close>, the
  identity that zeroed memory gives to every slot.
\<close>

definition pool_inv :: "nat \<Rightarrow> kstate \<Rightarrow> bool" where
  "pool_inv N s =
     (\<exists>bk. pool_wf N bk s \<and> hashed bk s \<and>
        (\<forall>x<N. \<forall>y<N. x \<noteq> y \<longrightarrow> ident s x = ident s y \<longrightarrow> ident s x = (0, 0)))"

text \<open>
  \<open>reached N s R\<close>: the state \<open>s\<close> is reached as in \<open>reachable\<close>, and \<open>R\<close> is the set of
  the slots that the miss path of \<^verbatim>\<open>bget\<close> has recycled on the way, that is, since
  \<^verbatim>\<open>binit\<close>. A call of \<^verbatim>\<open>bget\<close> or \<^verbatim>\<open>bread\<close> takes the miss path when the lookup in the
  bucket of its block number returns the null pointer.
\<close>

inductive reached :: "nat \<Rightarrow> kstate \<Rightarrow> nat set \<Rightarrow> bool" for N :: nat where
  h_binit: "binit N (boot BSIZE d) = Inr s \<Longrightarrow> reached N s {}"
| h_ticks: "reached N s R \<Longrightarrow> reached N (s\<lparr>ticks := t\<rparr>) R"
| h_bget_hit: "reached N s R \<Longrightarrow> bhashget (bhashgetline bn) dv bn s \<noteq> Some (Inr Null) \<Longrightarrow>
     bget quiet pid dv bn s = Some (Inr (b, s')) \<Longrightarrow> reached N s' R"
| h_bget_miss: "reached N s R \<Longrightarrow> bhashget (bhashgetline bn) dv bn s = Some (Inr Null) \<Longrightarrow>
     bget quiet pid dv bn s = Some (Inr (Slot v, s')) \<Longrightarrow> reached N s' (insert v R)"
| h_bread_hit: "reached N s R \<Longrightarrow> bhashget (bhashgetline bn) dv bn s \<noteq> Some (Inr Null) \<Longrightarrow>
     bread quiet pid dv bn s = Some (Inr (b, s')) \<Longrightarrow> reached N s' R"
| h_bread_miss: "reached N s R \<Longrightarrow> bhashget (bhashgetline bn) dv bn s = Some (Inr Null) \<Longrightarrow>
     bread quiet pid dv bn s = Some (Inr (Slot v, s')) \<Longrightarrow> reached N s' (insert v R)"
| h_bwrite: "reached N s R \<Longrightarrow> bwrite pid b s = Inr s' \<Longrightarrow> reached N s' R"
| h_brelse: "reached N s R \<Longrightarrow> brelse pid b s = Inr s' \<Longrightarrow> reached N s' R"
| h_bpin: "reached N s R \<Longrightarrow> bpin b s = Inr s' \<Longrightarrow> reached N s' R"
| h_bunpin: "reached N s R \<Longrightarrow> bunpin b s = Inr s' \<Longrightarrow> reached N s' R"

subsection \<open>Example runs\<close>

text \<open>
  A pool of one buffer over a disk whose blocks all hold the byte 7, with blocks of one
  byte: \<open>pool1\<close> is the state after \<^verbatim>\<open>binit\<close>; in \<open>pool1_read\<close> process 1 has read
  block 1 of device 1 and holds the buffer; in \<open>pool1_pinned\<close> it has pinned it as well;
  \<open>pool1_released\<close> is the state after it then released the buffer at tick 7.
  \<open>pool1_late\<close> is \<open>pool1_read\<close> after the buffer was released at tick \<open>0xFFFFFFFF\<close>.
  \<open>pool2\<close> is a pool of two buffers after \<^verbatim>\<open>binit\<close>.
\<close>

definition ex_disk :: "32 word \<times> 32 word \<Rightarrow> 8 word list" where
  "ex_disk k = [7]"

definition pool1 :: kstate where
  "pool1 = projr (binit 1 (boot 1 ex_disk))"

definition pool1_read :: kstate where
  "pool1_read = snd (projr (the (bread quiet 1 1 1 pool1)))"

definition pool1_pinned :: kstate where
  "pool1_pinned = projr (bpin (Slot 0) pool1_read)"

definition pool1_released :: kstate where
  "pool1_released = projr (brelse 1 (Slot 0) (pool1_pinned\<lparr>ticks := 7\<rparr>))"

definition pool1_late :: kstate where
  "pool1_late = projr (brelse 1 (Slot 0) (pool1_read\<lparr>ticks := 0xFFFFFFFF\<rparr>))"

definition pool2 :: kstate where
  "pool2 = projr (binit 2 (boot 1 ex_disk))"

text \<open>
  An environment for the eviction loop: in the gap of round 0 process 2, on another
  processor, looks up block 0 of device 0 and so takes a reference to the buffer that
  still carries this identity; later rounds are undisturbed.
\<close>

definition grab :: "nat \<Rightarrow> kstate \<Rightarrow> kstate" where
  "grab n s = (if n = 0 then snd (projr (the (bget quiet 2 0 0 s))) else s)"

text \<open>
  \<open>pool3\<close> is a pool of three buffers after \<^verbatim>\<open>binit\<close>; in \<open>pool3_read\<close> process 1 has
  read block 1 of device 1.
\<close>

definition pool3 :: kstate where
  "pool3 = projr (binit 3 (boot 1 ex_disk))"

definition pool3_read :: kstate where
  "pool3_read = snd (projr (the (bread quiet 1 1 1 pool3)))"




section \<open>Pointer paths and bucket rings\<close>

lemma path_append:
  "path f p (xs @ y # ys) q = (path f p xs y \<and> path f y ys q)"
  by (induction xs arbitrary: p) auto

lemma path_hd: "path f p xs q \<Longrightarrow> f p = hd (xs @ [q])"
  by (cases xs) auto

lemma path_cong:
  "g p = f p \<Longrightarrow> (\<And>x. x \<in> set xs \<Longrightarrow> g x = f x) \<Longrightarrow> path g p xs q = path f p xs q"
  by (induction xs arbitrary: p) auto

text \<open>Linking a node in behind \<open>p\<close>.\<close>

lemma path_link:
  assumes "path f p xs q" and "b \<noteq> p" and "b \<notin> set xs" and "p \<notin> set xs"
    and "g p = b" and "g b = f p" and "\<And>a. a \<noteq> p \<Longrightarrow> a \<noteq> b \<Longrightarrow> g a = f a"
  shows "path g p (b # xs) q"
proof -
  have "path g b xs q"
  proof (cases xs)
    case Nil
    with assms show ?thesis by simp
  next
    case (Cons x ys)
    then have "path f x ys q" and "f p = x" using assms(1) by auto
    moreover have "\<And>a. a \<in> set xs \<Longrightarrow> g a = f a"
      using assms(2,3,4,7) by metis
    then have "path g x ys q = path f x ys q"
      using Cons by (intro path_cong) auto
    ultimately show ?thesis using assms Cons by simp
  qed
  with assms show ?thesis by simp
qed

text \<open>Linking a node in before \<open>q\<close>, seen along the path that arrives at \<open>q\<close>.\<close>

lemma path_link_end:
  assumes "path f p xs q" and "distinct (p # xs)" and "b \<notin> set (p # xs)"
    and "g b = q" and "g (last (p # xs)) = b"
    and "\<And>a. a \<noteq> last (p # xs) \<Longrightarrow> a \<noteq> b \<Longrightarrow> g a = f a"
  shows "path g p (xs @ [b]) q"
  using assms
proof (induction xs arbitrary: p)
  case Nil
  then show ?case by simp
next
  case (Cons x xs)
  have l: "last (p # x # xs) = last (x # xs)" by simp
  have "path g x (xs @ [b]) q"
    using Cons.prems unfolding l by (intro Cons.IH) auto
  moreover have "last (x # xs) \<noteq> p"
    using Cons.prems(2) by (metis distinct.simps(2) last_in_set list.distinct(1))
  then have "g p = f p" using Cons.prems unfolding l by auto
  ultimately show ?case using Cons.prems by auto
qed

text \<open>Unlinking the node \<open>b\<close>.\<close>

lemma path_unlink:
  assumes "path f p (xs @ b # ys) q" and "distinct (p # xs @ b # ys)"
    and "g (last (p # xs)) = f b"
    and "\<And>a. a \<noteq> last (p # xs) \<Longrightarrow> a \<noteq> b \<Longrightarrow> g a = f a"
  shows "path g p (xs @ ys) q"
  using assms
proof (induction xs arbitrary: p)
  case Nil
  then have fb: "path f b ys q" and d: "b \<noteq> p" "p \<notin> set ys" "b \<notin> set ys" and gp: "g p = f b"
    and o: "\<And>a. a \<noteq> p \<Longrightarrow> a \<noteq> b \<Longrightarrow> g a = f a"
    by auto
  have "path g p ys q"
  proof (cases ys)
    case Nil
    with fb gp show ?thesis by simp
  next
    case (Cons y zs)
    then have "path f y zs q" and "f b = y" using fb by auto
    moreover have "\<And>a. a \<in> set ys \<Longrightarrow> g a = f a"
      using d o by metis
    then have "path g y zs q = path f y zs q"
      using Cons by (intro path_cong) auto
    ultimately show ?thesis using gp Cons by simp
  qed
  then show ?case by simp
next
  case (Cons x xs)
  have l: "last (p # x # xs) = last (x # xs)" by simp
  have "path g x (xs @ ys) q"
    using Cons.prems unfolding l by (intro Cons.IH) auto
  moreover have "last (x # xs) \<noteq> p"
    using Cons.prems(2) by (metis distinct.simps(2) last_in_set list.distinct(1) Un_iff set_append)
  then have "g p = f p" using Cons.prems unfolding l by auto
  ultimately show ?case using Cons.prems by auto
qed

lemma last_rev_hd: "last (q # rev xs) = hd (xs @ [q])"
  by (cases xs) auto

lemma dll_cong:
  assumes "\<And>a. a \<in> set (p # xs) \<Longrightarrow> bnext (m' a) = bnext (m a)"
    and "\<And>a. a \<in> set (q # xs) \<Longrightarrow> bprev (m' a) = bprev (m a)"
  shows "dll m' p xs q = dll m p xs q"
proof -
  have "path (\<lambda>a. bnext (m' a)) p xs q = path (\<lambda>a. bnext (m a)) p xs q"
    using assms(1) by (intro path_cong) auto
  moreover have "path (\<lambda>a. bprev (m' a)) q (rev xs) p = path (\<lambda>a. bprev (m a)) q (rev xs) p"
    using assms(2) by (intro path_cong) auto
  ultimately show ?thesis by (simp add: dll_def)
qed

lemma dll_next: "dll m p xs q \<Longrightarrow> bnext (m p) = hd (xs @ [q])"
  unfolding dll_def using path_hd [of "\<lambda>a. bnext (m a)"] by auto

lemma dll_link:
  assumes d: "dll m p xs p" and dist: "distinct (p # xs)" and nb: "b \<notin> set (p # xs)"
    and n1: "bnext (m' p) = b" and n2: "bnext (m' b) = bnext (m p)"
    and n3: "\<And>a. a \<noteq> p \<Longrightarrow> a \<noteq> b \<Longrightarrow> bnext (m' a) = bnext (m a)"
    and p1: "bprev (m' b) = p" and p2: "bprev (m' (bnext (m p))) = b"
    and p3: "\<And>a. a \<noteq> bnext (m p) \<Longrightarrow> a \<noteq> b \<Longrightarrow> bprev (m' a) = bprev (m a)"
  shows "dll m' p (b # xs) p"
proof -
  have n: "bnext (m p) = last (p # rev xs)"
    using dll_next [OF d] by (simp only: last_rev_hd)
  have f: "path (\<lambda>a. bnext (m a)) p xs p" and r: "path (\<lambda>a. bprev (m a)) p (rev xs) p"
    using d by (simp_all add: dll_def)
  have "path (\<lambda>a. bnext (m' a)) p (b # xs) p"
  proof (rule path_link [where f = "\<lambda>a. bnext (m a)"])
    show "path (\<lambda>a. bnext (m a)) p xs p" by (rule f)
    show "b \<noteq> p" "b \<notin> set xs" using nb by auto
    show "p \<notin> set xs" using dist by simp
    show "bnext (m' p) = b" by (rule n1)
    show "bnext (m' b) = bnext (m p)" by (rule n2)
    show "\<And>a. a \<noteq> p \<Longrightarrow> a \<noteq> b \<Longrightarrow> bnext (m' a) = bnext (m a)" by (rule n3)
  qed
  moreover have "path (\<lambda>a. bprev (m' a)) p (rev xs @ [b]) p"
  proof (rule path_link_end [where f = "\<lambda>a. bprev (m a)"])
    show "path (\<lambda>a. bprev (m a)) p (rev xs) p" by (rule r)
    show "distinct (p # rev xs)" using dist by simp
    show "b \<notin> set (p # rev xs)" using nb by simp
    show "bprev (m' b) = p" by (rule p1)
    show "bprev (m' (last (p # rev xs))) = b" using p2 unfolding n .
    show "\<And>a. a \<noteq> last (p # rev xs) \<Longrightarrow> a \<noteq> b \<Longrightarrow> bprev (m' a) = bprev (m a)"
      using p3 unfolding n .
  qed
  ultimately show ?thesis by (simp add: dll_def)
qed

lemma dll_neighbours:
  assumes "dll m p (xs @ b # ys) p"
  shows "bnext (m b) = hd (ys @ [p])" and "bprev (m b) = last (p # xs)"
proof -
  have f: "path (\<lambda>a. bnext (m a)) p (xs @ b # ys) p"
    and r: "path (\<lambda>a. bprev (m a)) p (rev ys @ b # rev xs) p"
    using assms(1) by (simp_all add: dll_def)
  from f have "path (\<lambda>a. bnext (m a)) b ys p" by (simp add: path_append)
  then show "bnext (m b) = hd (ys @ [p])"
    by (rule path_hd)
  from r have "path (\<lambda>a. bprev (m a)) b (rev xs) p" by (simp add: path_append)
  then have "bprev (m b) = hd (rev xs @ [p])" by (rule path_hd)
  then show "bprev (m b) = last (p # xs)"
    using last_rev_hd [of p "rev xs"] by simp
qed

lemma dll_unlink:
  assumes d: "dll m p (xs @ b # ys) p" and dist: "distinct (p # xs @ b # ys)"
    and n1: "bnext (m' (bprev (m b))) = bnext (m b)"
    and n2: "\<And>a. a \<noteq> bprev (m b) \<Longrightarrow> a \<noteq> b \<Longrightarrow> bnext (m' a) = bnext (m a)"
    and p1: "bprev (m' (bnext (m b))) = bprev (m b)"
    and p2: "\<And>a. a \<noteq> bnext (m b) \<Longrightarrow> a \<noteq> b \<Longrightarrow> bprev (m' a) = bprev (m a)"
  shows "dll m' p (xs @ ys) p"
proof -
  have f: "path (\<lambda>a. bnext (m a)) p (xs @ b # ys) p"
    and r: "path (\<lambda>a. bprev (m a)) p (rev ys @ b # rev xs) p"
    using d by (simp_all add: dll_def)
  have nb: "bnext (m b) = last (p # rev ys)"
    using dll_neighbours(1) [OF d] by (simp only: last_rev_hd)
  have pb: "bprev (m b) = last (p # xs)"
    by (rule dll_neighbours(2) [OF d])
  have "path (\<lambda>a. bnext (m' a)) p (xs @ ys) p"
  proof (rule path_unlink [where f = "\<lambda>a. bnext (m a)" and b = b])
    show "path (\<lambda>a. bnext (m a)) p (xs @ b # ys) p" by (rule f)
    show "distinct (p # xs @ b # ys)" by (rule dist)
    show "bnext (m' (last (p # xs))) = bnext (m b)" using n1 unfolding pb .
    show "\<And>a. a \<noteq> last (p # xs) \<Longrightarrow> a \<noteq> b \<Longrightarrow> bnext (m' a) = bnext (m a)"
      using n2 unfolding pb .
  qed
  moreover have "path (\<lambda>a. bprev (m' a)) p (rev ys @ rev xs) p"
  proof (rule path_unlink [where f = "\<lambda>a. bprev (m a)" and b = b])
    show "path (\<lambda>a. bprev (m a)) p (rev ys @ b # rev xs) p" by (rule r)
    show "distinct (p # rev ys @ b # rev xs)" using dist by auto
    show "bprev (m' (last (p # rev ys))) = bprev (m b)" using p1 unfolding nb .
    show "\<And>a. a \<noteq> last (p # rev ys) \<Longrightarrow> a \<noteq> b \<Longrightarrow> bprev (m' a) = bprev (m a)"
      using p2 unfolding nb .
  qed
  ultimately show ?thesis by (simp add: dll_def)
qed

lemma Slot_notin_map: "(Slot x \<in> set (map Slot xs)) = (x \<in> set xs)"
  by auto

lemma ring_distinct: "distinct xs \<Longrightarrow> distinct (Head i # map Slot xs)"
  by (auto simp: distinct_map inj_on_def)

lemma bhashadd_buckets:
  assumes bk: "buckets (mem s) bk"
    and dist: "\<forall>i<MODNUM. distinct (bk i)"
    and disj: "\<forall>i<MODNUM. \<forall>j<MODNUM. i \<noteq> j \<longrightarrow> set (bk i) \<inter> set (bk j) = {}"
    and h: "h < MODNUM"
    and fresh: "\<forall>i<MODNUM. x \<notin> set (bk i)"
  shows "\<exists>s'. bhashadd h (Slot x) s = Inr s' \<and> buckets (mem s') (bk(h := x # bk h)) \<and>
           relinked s s'"
proof -
  let ?m = "mem s"
  let ?b = "Slot x"
  let ?H = "Head h"
  let ?n = "bnext (?m ?H)"
  define m4 where "m4 = set_bnext ?H ?b (set_bprev ?n ?b (set_bprev ?b ?H (set_bnext ?b ?n ?m)))"
  have dh: "dll ?m ?H (map Slot (bk h)) ?H" using bk h by (simp add: buckets_def)
  have n: "?n = hd (map Slot (bk h) @ [?H])" by (rule dll_next [OF dh])
  have nin: "?n \<in> set (?H # map Slot (bk h))"
    unfolding n by (cases "bk h") auto
  have nnull: "?n \<noteq> Null" using nin by auto
  have nb: "?n \<noteq> ?b" using nin fresh h by auto
  have run: "bhashadd h ?b s = Inr (s\<lparr>mem := m4\<rparr>)"
    using nnull by (simp add: bhashadd_def m4_def Let_def set_bnext_def set_bprev_def)
  have nx: "\<And>a. bnext (m4 a) = (if a = ?H then ?b else if a = ?b then ?n else bnext (?m a))"
    by (simp add: m4_def set_bnext_def set_bprev_def)
  have pv: "\<And>a. bprev (m4 a) = (if a = ?n then ?b else if a = ?b then ?H else bprev (?m a))"
    by (simp add: m4_def set_bnext_def set_bprev_def)
  have "dll m4 (Head i) (map Slot ((bk(h := x # bk h)) i)) (Head i)" if i: "i < MODNUM" for i
  proof (cases "i = h")
    case True
    have "dll m4 ?H (?b # map Slot (bk h)) ?H"
    proof (rule dll_link [OF dh])
      show "distinct (?H # map Slot (bk h))" using dist h by (intro ring_distinct) simp
      show "?b \<notin> set (?H # map Slot (bk h))" using fresh h by auto
    qed (use nb in \<open>simp_all add: nx pv\<close>)
    with True show ?thesis by simp
  next
    case False
    have di: "dll ?m (Head i) (map Slot (bk i)) (Head i)" using bk i by (simp add: buckets_def)
    have out: "?H \<notin> set (Head i # map Slot (bk i))" "?b \<notin> set (Head i # map Slot (bk i))"
      "?n \<notin> set (Head i # map Slot (bk i))"
    proof -
      have "set (bk i) \<inter> set (bk h) = {}" using disj i h False by simp
      then show "?n \<notin> set (Head i # map Slot (bk i))" using nin False by auto
    qed (use False fresh i in auto)
    have "dll m4 (Head i) (map Slot (bk i)) (Head i) = dll ?m (Head i) (map Slot (bk i)) (Head i)"
    proof (rule dll_cong)
      fix a assume "a \<in> set (Head i # map Slot (bk i))"
      then have "a \<noteq> ?H" "a \<noteq> ?b" "a \<noteq> ?n" using out by metis+
      then show "bnext (m4 a) = bnext (?m a)" "bprev (m4 a) = bprev (?m a)"
        by (simp_all add: nx pv)
    qed
    with di False show ?thesis by simp
  qed
  then have "buckets m4 (bk(h := x # bk h))" by (simp add: buckets_def)
  moreover have "relinked s (s\<lparr>mem := m4\<rparr>)"
    by (simp add: relinked_def same_contents_def m4_def set_bnext_def set_bprev_def)
  ultimately show ?thesis using run by simp
qed

lemma bhashdel_buckets:
  assumes bk: "buckets (mem s) bk"
    and dist: "\<forall>i<MODNUM. distinct (bk i)"
    and disj: "\<forall>i<MODNUM. \<forall>j<MODNUM. i \<noteq> j \<longrightarrow> set (bk i) \<inter> set (bk j) = {}"
    and j: "j < MODNUM"
    and xin: "x \<in> set (bk j)"
  shows "\<exists>s'. bhashdel h (Slot x) s = Inr s' \<and> buckets (mem s') (bk(j := remove1 x (bk j))) \<and>
           relinked s s'"
proof -
  let ?m = "mem s"
  let ?b = "Slot x"
  let ?H = "Head j"
  let ?n = "bnext (?m ?b)"
  let ?p = "bprev (?m ?b)"
  define m4 where
    "m4 = set_bnext ?b Null (set_bprev ?b Null (set_bnext ?p ?n (set_bprev ?n ?p ?m)))"
  obtain as cs where split: "bk j = as @ x # cs" and xas: "x \<notin> set as"
    using xin by (meson split_list_first)
  have dj: "distinct (bk j)" using dist j by simp
  then have xcs: "x \<notin> set cs" using split by auto
  have rm: "remove1 x (bk j) = as @ cs" using split xas by (simp add: remove1_append)
  have "dll ?m ?H (map Slot (bk j)) ?H" using bk j by (simp add: buckets_def)
  then have dh: "dll ?m ?H (map Slot as @ ?b # map Slot cs) ?H"
    by (simp add: split)
  have rd: "distinct (?H # map Slot as @ ?b # map Slot cs)"
    using ring_distinct [OF dj, of j] split by simp
  have n: "?n = hd (map Slot cs @ [?H])" and p: "?p = last (?H # map Slot as)"
    using dll_neighbours [OF dh] by simp_all
  have nin: "?n \<in> set (?H # map Slot cs)" unfolding n by (cases cs) auto
  have pin: "?p \<in> set (?H # map Slot as)" unfolding p by (cases as rule: rev_cases) auto
  have nnull: "?n \<noteq> Null" and pnull: "?p \<noteq> Null" using nin pin by auto
  have nb: "?n \<noteq> ?b" using nin xcs by auto
  have pb: "?p \<noteq> ?b" using pin xas by auto
  have run: "bhashdel h ?b s = Inr (s\<lparr>mem := m4\<rparr>)"
    using nnull pnull nb by (simp add: bhashdel_def m4_def Let_def set_bnext_def set_bprev_def)
  have nx: "\<And>a. bnext (m4 a) = (if a = ?b then Null else if a = ?p then ?n else bnext (?m a))"
    by (simp add: m4_def set_bnext_def set_bprev_def)
  have pv: "\<And>a. bprev (m4 a) = (if a = ?b then Null else if a = ?n then ?p else bprev (?m a))"
    by (simp add: m4_def set_bnext_def set_bprev_def)
  have "dll m4 (Head i) (map Slot ((bk(j := remove1 x (bk j))) i)) (Head i)" if i: "i < MODNUM" for i
  proof (cases "i = j")
    case True
    have "dll m4 ?H (map Slot as @ map Slot cs) ?H"
      by (rule dll_unlink [OF dh rd]) (use nb pb in \<open>simp_all add: nx pv\<close>)
    with True rm show ?thesis by simp
  next
    case False
    have di: "dll ?m (Head i) (map Slot (bk i)) (Head i)" using bk i by (simp add: buckets_def)
    have e: "set (bk i) \<inter> set (bk j) = {}" using disj i j False by simp
    have out: "?b \<notin> set (Head i # map Slot (bk i))" "?n \<notin> set (Head i # map Slot (bk i))"
      "?p \<notin> set (Head i # map Slot (bk i))"
      using e nin pin False xin split by auto
    have "dll m4 (Head i) (map Slot (bk i)) (Head i) = dll ?m (Head i) (map Slot (bk i)) (Head i)"
    proof (rule dll_cong)
      fix a assume "a \<in> set (Head i # map Slot (bk i))"
      then have "a \<noteq> ?p" "a \<noteq> ?b" "a \<noteq> ?n" using out by metis+
      then show "bnext (m4 a) = bnext (?m a)" "bprev (m4 a) = bprev (?m a)"
        by (simp_all add: nx pv)
    qed
    with di False show ?thesis by simp
  qed
  then have "buckets m4 (bk(j := remove1 x (bk j)))" by (simp add: buckets_def)
  moreover have "relinked s (s\<lparr>mem := m4\<rparr>)"
    by (simp add: relinked_def same_contents_def m4_def set_bnext_def set_bprev_def)
  ultimately show ?thesis using run by simp
qed

section \<open>The walks through the buckets\<close>

lemma bhashget_walk_path:
  assumes "path (\<lambda>a. bnext (m a)) p xs q" and "q \<notin> set xs" and "Null \<notin> set xs"
  shows "bhashget_walk m q dv bn (bnext (m p)) =
           Some (Inr (case find (\<lambda>b. dev (m b) = dv \<and> blockno (m b) = bn) xs of
                        None \<Rightarrow> Null | Some b \<Rightarrow> b))"
  using assms
proof (induction xs arbitrary: p)
  case Nil
  then show ?case by (subst bhashget_walk.simps) simp
next
  case (Cons x xs)
  then have nx: "bnext (m p) = x" and rest: "path (\<lambda>a. bnext (m a)) x xs q"
    and ne: "x \<noteq> q" "x \<noteq> Null" and tl: "q \<notin> set xs" "Null \<notin> set xs"
    by auto
  show ?case
    unfolding nx
    by (subst bhashget_walk.simps) (use ne Cons.IH [OF rest tl] in simp)
qed

lemma scan_walk_path:
  assumes "path (\<lambda>a. bnext (m a)) p xs q" and "q \<notin> set xs" and "Null \<notin> set xs"
  shows "scan_walk m q (bnext (m p)) acc = Some (Inr (foldl (lru_step m) acc xs))"
  using assms
proof (induction xs arbitrary: p acc)
  case Nil
  then show ?case by (subst scan_walk.simps) simp
next
  case (Cons x xs)
  then have nx: "bnext (m p) = x" and rest: "path (\<lambda>a. bnext (m a)) x xs q"
    and ne: "x \<noteq> q" "x \<noteq> Null" and tl: "q \<notin> set xs" "Null \<notin> set xs"
    by auto
  have step: "(if refcnt (m x) = 0 \<and> timestamp (m x) < snd acc
              then (x, timestamp (m x)) else acc) = lru_step m acc x"
    by (simp add: lru_step_def)
  show ?case
    unfolding nx
    by (subst scan_walk.simps) (use ne in \<open>simp add: step Cons.IH [OF rest tl]\<close>)
qed

lemma scan_buckets_fold:
  assumes "buckets m bk" and "\<forall>i\<in>set is. i < MODNUM"
  shows "scan_buckets m is acc = Some (Inr (foldl (lru_step m) acc (map Slot (concat (map bk is)))))"
  using assms(2)
proof (induction "is" arbitrary: acc)
  case Nil
  then show ?case by simp
next
  case (Cons i "is")
  have "dll m (Head i) (map Slot (bk i)) (Head i)" using assms(1) Cons.prems by (simp add: buckets_def)
  then have "path (\<lambda>a. bnext (m a)) (Head i) (map Slot (bk i)) (Head i)" by (simp add: dll_def)
  then have "scan_walk m (Head i) (bnext (m (Head i))) acc =
      Some (Inr (foldl (lru_step m) acc (map Slot (bk i))))"
    by (rule scan_walk_path) auto
  then show ?case using Cons by simp
qed

lemma scan_lru_of:
  assumes "buckets (mem s) bk"
  shows "scan s = Some (Inr (lru_of (mem s) (map Slot (scan_order bk))))"
  unfolding scan_def lru_of_def scan_order_def
  by (rule scan_buckets_fold [OF assms]) simp

lemma bhashget_find:
  assumes "buckets (mem s) bk" and "h < MODNUM"
  shows "bhashget h dv bn s =
           Some (Inr (case find (\<lambda>x. dev (mem s (Slot x)) = dv \<and> blockno (mem s (Slot x)) = bn) (bk h) of
                        None \<Rightarrow> Null | Some x \<Rightarrow> Slot x))"
proof -
  have "dll (mem s) (Head h) (map Slot (bk h)) (Head h)" using assms by (simp add: buckets_def)
  then have "path (\<lambda>a. bnext (mem s a)) (Head h) (map Slot (bk h)) (Head h)" by (simp add: dll_def)
  then have "bhashget h dv bn s =
           Some (Inr (case find (\<lambda>b. dev (mem s b) = dv \<and> blockno (mem s b) = bn) (map Slot (bk h)) of
                        None \<Rightarrow> Null | Some b \<Rightarrow> b))"
    unfolding bhashget_def by (rule bhashget_walk_path) auto
  moreover have "find P (map Slot xs) = map_option Slot (find (\<lambda>x. P (Slot x)) xs)" for P xs
    by (induction xs) auto
  ultimately show ?thesis
    by (cases "find (\<lambda>x. dev (mem s (Slot x)) = dv \<and> blockno (mem s (Slot x)) = bn) (bk h)") simp_all
qed

lemma lru_fold_none:
  assumes "\<forall>b\<in>set bs. refcnt (m b) = 0 \<longrightarrow> \<not> timestamp (m b) < snd acc"
  shows "foldl (lru_step m) acc bs = acc"
  using assms by (induction bs) (auto simp: lru_step_def)

lemma lru_fold_some:
  assumes "\<exists>b\<in>set bs. refcnt (m b) = 0 \<and> timestamp (m b) < snd acc"
  shows "\<exists>v. foldl (lru_step m) acc bs = (v, timestamp (m v)) \<and> is_lru m bs v \<and>
           timestamp (m v) < snd acc"
  using assms
proof (induction bs arbitrary: acc)
  case Nil
  then show ?case by simp
next
  case (Cons x xs)
  show ?case
  proof (cases "refcnt (m x) = 0 \<and> timestamp (m x) < snd acc")
    case True
    then have st: "lru_step m acc x = (x, timestamp (m x))" by (simp add: lru_step_def)
    show ?thesis
    proof (cases "\<exists>b\<in>set xs. refcnt (m b) = 0 \<and> timestamp (m b) < timestamp (m x)")
      case later: True
      then obtain v where f: "foldl (lru_step m) (x, timestamp (m x)) xs = (v, timestamp (m v))"
        and l: "is_lru m xs v" and lt: "timestamp (m v) < timestamp (m x)"
        using Cons.IH [of "(x, timestamp (m x))"] by auto
      from l obtain as cs where "xs = as @ v # cs" "refcnt (m v) = 0"
        "\<forall>a\<in>set as. refcnt (m a) = 0 \<longrightarrow> timestamp (m v) < timestamp (m a)"
        "\<forall>c\<in>set cs. refcnt (m c) = 0 \<longrightarrow> timestamp (m v) \<le> timestamp (m c)"
        unfolding is_lru_def by blast
      then have "is_lru m (x # xs) v"
        unfolding is_lru_def using lt by (intro exI [of _ "x # as"] exI [of _ cs]) auto
      then show ?thesis using f st lt True by auto
    next
      case False
      then have "foldl (lru_step m) (x, timestamp (m x)) xs = (x, timestamp (m x))"
        by (intro lru_fold_none) auto
      moreover have "is_lru m (x # xs) x"
        unfolding is_lru_def using False True
        by (intro exI [of _ "[]"] exI [of _ xs]) (auto simp: not_less)
      ultimately show ?thesis using st True by auto
    qed
  next
    case False
    then have st: "lru_step m acc x = acc" by (auto simp: lru_step_def)
    from False Cons.prems obtain b where b: "b \<in> set xs" "refcnt (m b) = 0" "timestamp (m b) < snd acc"
      by auto
    then obtain v where f: "foldl (lru_step m) acc xs = (v, timestamp (m v))"
      and l: "is_lru m xs v" and lt: "timestamp (m v) < snd acc"
      using Cons.IH [of acc] by blast
    from l obtain as cs where "xs = as @ v # cs" "refcnt (m v) = 0"
      "\<forall>a\<in>set as. refcnt (m a) = 0 \<longrightarrow> timestamp (m v) < timestamp (m a)"
      "\<forall>c\<in>set cs. refcnt (m c) = 0 \<longrightarrow> timestamp (m v) \<le> timestamp (m c)"
      unfolding is_lru_def by blast
    moreover have "refcnt (m x) = 0 \<longrightarrow> timestamp (m v) < timestamp (m x)"
      using False lt by auto
    ultimately have "is_lru m (x # xs) v"
      unfolding is_lru_def by (intro exI [of _ "x # as"] exI [of _ cs]) auto
    then show ?thesis using f st lt by auto
  qed
qed

lemma is_lru_min:
  assumes "is_lru m bs v"
  shows "v \<in> set bs" and "refcnt (m v) = 0"
    and "\<And>b. b \<in> set bs \<Longrightarrow> refcnt (m b) = 0 \<Longrightarrow> timestamp (m v) \<le> timestamp (m b)"
proof -
  from assms obtain as cs where s: "bs = as @ v # cs" and r: "refcnt (m v) = 0"
    and a: "\<forall>a\<in>set as. refcnt (m a) = 0 \<longrightarrow> timestamp (m v) < timestamp (m a)"
    and c: "\<forall>c\<in>set cs. refcnt (m c) = 0 \<longrightarrow> timestamp (m v) \<le> timestamp (m c)"
    unfolding is_lru_def by blast
  show "v \<in> set bs" using s by simp
  show "refcnt (m v) = 0" by (rule r)
  fix b assume "b \<in> set bs" "refcnt (m b) = 0"
  then show "timestamp (m v) \<le> timestamp (m b)"
    using s a c by (auto simp: less_imp_le)
qed

section \<open>Recycling a buffer\<close>

lemma buckets_cong:
  assumes "\<And>p. bnext (m' p) = bnext (m p)" and "\<And>p. bprev (m' p) = bprev (m p)"
  shows "buckets m' bk = buckets m bk"
proof -
  have "dll m' (Head i) (map Slot (bk i)) (Head i) = dll m (Head i) (map Slot (bk i)) (Head i)" for i
    by (rule dll_cong) (simp_all add: assms)
  then show ?thesis by (simp add: buckets_def)
qed

lemma only_refcnt_upd:
  "only_refcnt b s (s\<lparr>mem := (mem s)(b := (mem s b)\<lparr>refcnt := r\<rparr>)\<rparr>)"
proof -
  have "\<forall>bk. buckets ((mem s)(b := (mem s b)\<lparr>refcnt := r\<rparr>)) bk = buckets (mem s) bk"
    by (intro allI buckets_cong) simp_all
  then show ?thesis by (simp add: only_refcnt_def)
qed

lemma bhashgetline_less: "bhashgetline bn < MODNUM"
  by (simp add: bhashgetline_def MODNUM_def)

lemma relinked_refl: "relinked s s"
  by (simp add: relinked_def same_contents_def)

lemma relinked_trans: "relinked s s' \<Longrightarrow> relinked s' s'' \<Longrightarrow> relinked s s''"
  by (simp add: relinked_def same_contents_def)

lemma relinked_fields:
  assumes "relinked s s'"
  shows "valid (mem s' p) = valid (mem s p)" "dev (mem s' p) = dev (mem s p)"
    "blockno (mem s' p) = blockno (mem s p)" "lock (mem s' p) = lock (mem s p)"
    "refcnt (mem s' p) = refcnt (mem s p)" "timestamp (mem s' p) = timestamp (mem s p)"
    "data (mem s' p) = data (mem s p)"
    "ticks s' = ticks s" "disk s' = disk s" "xfers s' = xfers s"
  using assms by (simp_all add: relinked_def same_contents_def)

lemma moved_parts:
  assumes dist: "\<forall>i<MODNUM. distinct (bk i)"
    and disj: "\<forall>i<MODNUM. \<forall>k<MODNUM. i \<noteq> k \<longrightarrow> set (bk i) \<inter> set (bk k) = {}"
    and j: "j < MODNUM" and h: "h < MODNUM" and v: "v \<in> set (bk j)"
  defines "bk1 \<equiv> bk(j := remove1 v (bk j))"
  shows "\<forall>i<MODNUM. distinct (bk1 i)"
    and "\<forall>i<MODNUM. \<forall>k<MODNUM. i \<noteq> k \<longrightarrow> set (bk1 i) \<inter> set (bk1 k) = {}"
    and "\<forall>i<MODNUM. v \<notin> set (bk1 i)"
    and "moved bk v j h = bk1(h := v # bk1 h)"
    and "\<forall>i<MODNUM. distinct (moved bk v j h i)"
    and "\<forall>i<MODNUM. \<forall>k<MODNUM. i \<noteq> k \<longrightarrow>
           set (moved bk v j h i) \<inter> set (moved bk v j h k) = {}"
    and "\<And>x. (\<exists>i<MODNUM. x \<in> set (moved bk v j h i)) = (\<exists>i<MODNUM. x \<in> set (bk i))"
proof -
  have s1: "set (bk1 i) = (if i = j then set (bk j) - {v} else set (bk i))" if "i < MODNUM" for i
    using dist j by (simp add: bk1_def)
  show d1: "\<forall>i<MODNUM. distinct (bk1 i)"
    using dist by (simp add: bk1_def)
  show e1: "\<forall>i<MODNUM. \<forall>k<MODNUM. i \<noteq> k \<longrightarrow> set (bk1 i) \<inter> set (bk1 k) = {}"
  proof (intro allI impI)
    fix i k assume a: "i < MODNUM" "k < MODNUM" "i \<noteq> k"
    then have "set (bk i) \<inter> set (bk k) = {}" using disj by simp
    moreover have "set (bk1 i) \<subseteq> set (bk i)" "set (bk1 k) \<subseteq> set (bk k)"
      using s1 a by auto
    ultimately show "set (bk1 i) \<inter> set (bk1 k) = {}" by blast
  qed
  show f1: "\<forall>i<MODNUM. v \<notin> set (bk1 i)"
  proof (intro allI impI)
    fix i assume a: "i < MODNUM"
    show "v \<notin> set (bk1 i)"
    proof (cases "i = j")
      case True
      then show ?thesis using s1 a by simp
    next
      case False
      then have "set (bk i) \<inter> set (bk j) = {}" using disj a j by simp
      then show ?thesis using v s1 a False by auto
    qed
  qed
  show m: "moved bk v j h = bk1(h := v # bk1 h)"
    by (simp add: moved_def bk1_def Let_def)
  have s2: "set (moved bk v j h i) = (if i = h then insert v (set (bk1 h)) else set (bk1 i))" for i
    by (simp add: m)
  show "\<forall>i<MODNUM. distinct (moved bk v j h i)"
    using d1 f1 h by (simp add: m)
  show "\<forall>i<MODNUM. \<forall>k<MODNUM. i \<noteq> k \<longrightarrow>
           set (moved bk v j h i) \<inter> set (moved bk v j h k) = {}"
  proof (intro allI impI)
    fix i k assume a: "i < MODNUM" "k < MODNUM" "i \<noteq> k"
    then have "set (bk1 i) \<inter> set (bk1 k) = {}" using e1 by simp
    moreover have "v \<notin> set (bk1 i)" "v \<notin> set (bk1 k)" using f1 a by simp_all
    ultimately show "set (moved bk v j h i) \<inter> set (moved bk v j h k) = {}"
      using a by (auto simp: s2)
  qed
  show "(\<exists>i<MODNUM. x \<in> set (moved bk v j h i)) = (\<exists>i<MODNUM. x \<in> set (bk i))" for x
  proof
    assume "\<exists>i<MODNUM. x \<in> set (moved bk v j h i)"
    then obtain i where i: "i < MODNUM" "x \<in> set (moved bk v j h i)" by blast
    show "\<exists>i<MODNUM. x \<in> set (bk i)"
    proof (cases "x = v")
      case True
      then show ?thesis using v j by blast
    next
      case False
      then obtain i' where "i' < MODNUM" "x \<in> set (bk1 i')"
        using i h by (auto simp: s2 split: if_splits)
      then have "x \<in> set (bk i')" using s1 by (auto split: if_splits)
      then show ?thesis using \<open>i' < MODNUM\<close> by blast
    qed
  next
    assume "\<exists>i<MODNUM. x \<in> set (bk i)"
    then obtain i where i: "i < MODNUM" "x \<in> set (bk i)" by blast
    show "\<exists>i<MODNUM. x \<in> set (moved bk v j h i)"
    proof (cases "x = v")
      case True
      then show ?thesis using h by (auto simp: s2)
    next
      case False
      then have "x \<in> set (bk1 i)" using i s1 by auto
      then have "x \<in> set (moved bk v j h i)" by (auto simp: s2)
      then show ?thesis using i by blast
    qed
  qed
qed

lemma moved_mem:
  assumes dist: "\<forall>i<MODNUM. distinct (bk i)"
    and disj: "\<forall>i<MODNUM. \<forall>k<MODNUM. i \<noteq> k \<longrightarrow> set (bk i) \<inter> set (bk k) = {}"
    and j: "j < MODNUM" and h: "h < MODNUM" and v: "v \<in> set (bk j)" and i: "i < MODNUM"
  shows "(x \<in> set (moved bk v j h i)) = (if x = v then i = h else x \<in> set (bk i))"
proof -
  note mp = moved_parts [OF dist disj j h v]
  have f: "v \<notin> set ((bk(j := remove1 v (bk j))) i)" using mp(3) i by simp
  have "set (remove1 v (bk j)) = set (bk j) - {v}" using dist j by simp
  then show ?thesis using f by (auto simp: mp(4))
qed

lemma recycle_ok:
  assumes wf: "pool_wf N bk s" and j: "j < MODNUM" and v: "v \<in> set (bk j)"
  shows "\<exists>s'. recycle pid dv bn (Slot v) s =
             (if lock (mem s (Slot v)) = None then Some (Inr (Slot v, s')) else None) \<and>
           pool_wf N (moved bk v j (bhashgetline bn)) s' \<and>
           relinked (s\<lparr>mem := (mem s)(Slot v := (mem s (Slot v))
              \<lparr>dev := dv, blockno := bn, valid := False, refcnt := 1, lock := Some pid\<rparr>)\<rparr>) s'"
proof -
  let ?b = "Slot v"
  let ?h = "bhashgetline bn"
  have bk: "buckets (mem s) bk" and dist: "\<forall>i<MODNUM. distinct (bk i)"
    and disj: "\<forall>i<MODNUM. \<forall>k<MODNUM. i \<noteq> k \<longrightarrow> set (bk i) \<inter> set (bk k) = {}"
    and cov: "\<And>x. (x < N) = (\<exists>i<MODNUM. x \<in> set (bk i))"
    using wf by (simp_all add: pool_wf_def)
  define bk1 where "bk1 = bk(j := remove1 v (bk j))"
  note mp = moved_parts [OF dist disj j bhashgetline_less v, folded bk1_def]
  obtain s1 where del: "bhashdel (bhashgetline (blockno (mem s ?b))) ?b s = Inr s1"
    and b1: "buckets (mem s1) bk1" and r1: "relinked s s1"
    using bhashdel_buckets [OF bk dist disj j v] unfolding bk1_def by blast
  define s5 where "s5 = s1\<lparr>mem := (mem s1)(?b := (mem s1 ?b)
      \<lparr>dev := dv, blockno := bn, valid := False, refcnt := 1\<rparr>)\<rparr>"
  have b5: "buckets (mem s5) bk1"
    using b1 buckets_cong [of "mem s5" "mem s1" bk1] by (simp add: s5_def)
  obtain s6 where add: "bhashadd ?h ?b s5 = Inr s6"
    and b6: "buckets (mem s6) (bk1(?h := v # bk1 ?h))" and r6: "relinked s5 s6"
    using bhashadd_buckets [OF b5 mp(1) mp(2) bhashgetline_less mp(3)] by blast
  have l6: "lock (mem s6 ?b) = lock (mem s ?b)"
    using relinked_fields(4) [OF r6, of ?b] relinked_fields(4) [OF r1, of ?b]
    by (simp add: s5_def)
  define s7 where "s7 = s6\<lparr>mem := (mem s6)(?b := (mem s6 ?b)\<lparr>lock := Some pid\<rparr>)\<rparr>"
  have acq: "acquiresleep pid ?b s6 = (if lock (mem s ?b) = None then Some s7 else None)"
    using l6 by (simp add: acquiresleep_def s7_def)
  have run: "recycle pid dv bn ?b s =
      (if lock (mem s ?b) = None then Some (Inr (?b, s7)) else None)"
    unfolding recycle_def using del add acq by (simp add: s5_def Let_def)
  have b7: "buckets (mem s7) (moved bk v j ?h)"
    using b6 buckets_cong [of "mem s7" "mem s6"] by (simp add: s7_def mp(4))
  have w7: "pool_wf N (moved bk v j ?h) s7"
    unfolding pool_wf_def using b7 mp(5) mp(6) mp(7) cov by simp
  have "relinked (s\<lparr>mem := (mem s)(?b := (mem s ?b)
      \<lparr>dev := dv, blockno := bn, valid := False, refcnt := 1, lock := Some pid\<rparr>)\<rparr>) s7"
    using r1 r6 by (simp add: relinked_def same_contents_def s5_def s7_def)
  with run w7 show ?thesis by blast
qed

lemma set_scan_order: "set (scan_order bk) = {x. \<exists>i<MODNUM. x \<in> set (bk i)}"
  by (auto simp: scan_order_def)

lemma pool_wf_scan_order: "pool_wf N bk s \<Longrightarrow> set (scan_order bk) = {..<N}"
  by (auto simp: set_scan_order pool_wf_def)

lemma bget_evict_panic:
  assumes "buckets (mem s) bk"
    and "\<forall>x\<in>set (scan_order bk). refcnt (mem s (Slot x)) = 0 \<longrightarrow>
           \<not> timestamp (mem s (Slot x)) < 0xFFFFFFFF"
  shows "bget_evict env n pid dv bn s = Some (Inl (Panic ''bget: no buffers''))"
proof -
  have "lru_of (mem s) (map Slot (scan_order bk)) = (Null, 0xFFFFFFFF)"
    unfolding lru_of_def using assms(2) by (intro lru_fold_none) auto
  then have "scan s = Some (Inr (Null, 0xFFFFFFFF))"
    using scan_lru_of [OF assms(1)] by simp
  then show ?thesis by (subst bget_evict.simps) simp
qed

lemma scan_picks:
  assumes "buckets (mem s) bk"
    and "\<exists>x\<in>set (scan_order bk). refcnt (mem s (Slot x)) = 0 \<and>
           timestamp (mem s (Slot x)) < 0xFFFFFFFF"
  shows "\<exists>v. scan s = Some (Inr (Slot v, timestamp (mem s (Slot v)))) \<and>
           is_lru (mem s) (map Slot (scan_order bk)) (Slot v) \<and> v \<in> set (scan_order bk) \<and>
           timestamp (mem s (Slot v)) < 0xFFFFFFFF"
proof -
  have "\<exists>b\<in>set (map Slot (scan_order bk)). refcnt (mem s b) = 0 \<and>
          timestamp (mem s b) < snd (Null, 0xFFFFFFFF :: 32 word)"
    using assms(2) by auto
  then have "\<exists>c. foldl (lru_step (mem s)) (Null, 0xFFFFFFFF) (map Slot (scan_order bk)) =
            (c, timestamp (mem s c)) \<and>
          is_lru (mem s) (map Slot (scan_order bk)) c \<and>
          timestamp (mem s c) < snd (Null, 0xFFFFFFFF :: 32 word)"
    by (rule lru_fold_some)
  then obtain c where f: "lru_of (mem s) (map Slot (scan_order bk)) = (c, timestamp (mem s c))"
    and l: "is_lru (mem s) (map Slot (scan_order bk)) c"
    and lt: "timestamp (mem s c) < 0xFFFFFFFF"
    unfolding lru_of_def by auto
  from is_lru_min(1) [OF l] obtain v where "c = Slot v" "v \<in> set (scan_order bk)" by auto
  then show ?thesis using f l lt scan_lru_of [OF assms(1)] by auto
qed

lemma bget_evict_round:
  assumes "scan s = Some (Inr (c, t))" and "c \<noteq> Null"
  shows "bget_evict env n pid dv bn s =
     (if refcnt (mem (env n s) c) \<noteq> 0 \<or> timestamp (mem (env n s) c) \<noteq> t
      then bget_evict env (Suc n) pid dv bn (env n s)
      else recycle pid dv bn c (env n s))"
  by (subst bget_evict.simps) (simp add: assms Let_def)

lemma bget_evict_ok:
  assumes wf: "pool_wf N bk s"
    and elig: "\<exists>x<N. refcnt (mem s (Slot x)) = 0 \<and> timestamp (mem s (Slot x)) < 0xFFFFFFFF"
    and free: "\<forall>x<N. refcnt (mem s (Slot x)) = 0 \<longrightarrow> lock (mem s (Slot x)) = None"
    and env: "env n s = s"
  shows "\<exists>v j s'. bget_evict env n pid dv bn s = Some (Inr (Slot v, s')) \<and>
           is_lru (mem s) (map Slot (scan_order bk)) (Slot v) \<and>
           j < MODNUM \<and> v \<in> set (bk j) \<and>
           pool_wf N (moved bk v j (bhashgetline bn)) s' \<and>
           relinked (s\<lparr>mem := (mem s)(Slot v := (mem s (Slot v))
              \<lparr>dev := dv, blockno := bn, valid := False, refcnt := 1, lock := Some pid\<rparr>)\<rparr>) s'"
proof -
  have bk: "buckets (mem s) bk" using wf by (simp add: pool_wf_def)
  have so: "set (scan_order bk) = {..<N}" by (rule pool_wf_scan_order [OF wf])
  obtain v where sc: "scan s = Some (Inr (Slot v, timestamp (mem s (Slot v))))"
    and l: "is_lru (mem s) (map Slot (scan_order bk)) (Slot v)" and vin: "v \<in> set (scan_order bk)"
    using scan_picks [OF bk] elig so by auto
  have r0: "refcnt (mem s (Slot v)) = 0" by (rule is_lru_min(2) [OF l])
  have vN: "v < N" using vin so by simp
  obtain j where j: "j < MODNUM" "v \<in> set (bk j)" using vin by (auto simp: set_scan_order)
  have lk: "lock (mem s (Slot v)) = None" using free vN r0 by simp
  have "bget_evict env n pid dv bn s = recycle pid dv bn (Slot v) s"
    using bget_evict_round [OF sc, of env n pid dv bn] r0 env by simp
  then show ?thesis
    using recycle_ok [OF wf j, of pid dv bn] lk l j by auto
qed


section \<open>Initialisation\<close>

lemma binit_heads_next:
  "bnext (binit_heads is m p) = (if p \<in> Head ` set is then p else bnext (m p))"
  by (induction "is" arbitrary: m) (auto simp: set_bnext_def set_bprev_def)

lemma binit_heads_prev:
  "bprev (binit_heads is m p) = (if p \<in> Head ` set is then p else bprev (m p))"
  by (induction "is" arbitrary: m) (auto simp: set_bnext_def set_bprev_def)

lemma binit_heads_contents: "same_contents (binit_heads is m p) (m p)"
proof (induction "is" arbitrary: m)
  case Nil
  show ?case by (simp add: same_contents_def)
next
  case (Cons i "is")
  have "same_contents (set_bnext (Head i) (Head i) (set_bprev (Head i) (Head i) m) p) (m p)"
    by (simp add: same_contents_def set_bnext_def set_bprev_def)
  with Cons [of "set_bnext (Head i) (Head i) (set_bprev (Head i) (Head i) m)"]
  show ?case by (simp add: same_contents_def)
qed

lemma binit_heads_buckets: "buckets (binit_heads [0..<MODNUM] m) (\<lambda>i. [])"
  by (simp add: buckets_def dll_def binit_heads_next binit_heads_prev)

lemma initsleeplock_idle:
  assumes "lock (mem s b) = None"
  shows "initsleeplock b s = s"
proof -
  have "(mem s b)\<lparr>lock := None\<rparr> = mem s b" using assms by (cases "mem s b") simp
  then show ?thesis by (simp add: initsleeplock_def)
qed

lemma binit_bufs_ok:
  assumes "buckets (mem s) bk" and "\<forall>i<MODNUM. distinct (bk i)"
    and "\<forall>i<MODNUM. \<forall>k<MODNUM. i \<noteq> k \<longrightarrow> set (bk i) \<inter> set (bk k) = {}"
    and "distinct xs" and "\<forall>i<MODNUM. set xs \<inter> set (bk i) = {}"
    and "\<forall>p. lock (mem s p) = None"
  shows "\<exists>s'. binit_bufs xs s = Inr s' \<and> buckets (mem s') (bk(0 := rev xs @ bk 0)) \<and>
           relinked s s'"
  using assms
proof (induction xs arbitrary: s bk)
  case Nil
  then show ?case by (simp add: relinked_refl)
next
  case (Cons x xs)
  have z: "0 < MODNUM" by (simp add: MODNUM_def)
  have fresh: "\<forall>i<MODNUM. x \<notin> set (bk i)" using Cons.prems(5) by auto
  obtain s1 where a: "bhashadd 0 (Slot x) s = Inr s1"
    and b1: "buckets (mem s1) (bk(0 := x # bk 0))" and r1: "relinked s s1"
    using bhashadd_buckets [OF Cons.prems(1,2,3) z fresh] by blast
  let ?bk1 = "bk(0 := x # bk 0)"
  have d1: "\<forall>i<MODNUM. distinct (?bk1 i)" using Cons.prems(2) fresh by simp
  have e1: "\<forall>i<MODNUM. \<forall>k<MODNUM. i \<noteq> k \<longrightarrow> set (?bk1 i) \<inter> set (?bk1 k) = {}"
    using Cons.prems(3) fresh by auto
  have f1: "\<forall>i<MODNUM. set xs \<inter> set (?bk1 i) = {}"
    using Cons.prems(4,5) by auto
  have l1: "\<forall>p. lock (mem s1 p) = None"
    using relinked_fields(4) [OF r1] Cons.prems(6) by simp
  have dx: "distinct xs" using Cons.prems(4) by simp
  have "\<exists>s'. binit_bufs xs s1 = Inr s' \<and> buckets (mem s') (?bk1(0 := rev xs @ ?bk1 0)) \<and>
           relinked s1 s'"
    by (rule Cons.IH [OF b1 d1 e1 dx f1 l1])
  then obtain s' where b: "binit_bufs xs s1 = Inr s'"
    and b': "buckets (mem s') (?bk1(0 := rev xs @ ?bk1 0))" and r': "relinked s1 s'"
    by blast
  have "binit_bufs (x # xs) s = Inr s'"
    using a b Cons.prems(6) by (simp add: initsleeplock_idle)
  moreover have "?bk1(0 := rev xs @ ?bk1 0) = bk(0 := rev (x # xs) @ bk 0)" by simp
  ultimately show ?case using b' r' r1 relinked_trans by metis
qed

lemma binit_ok:
  "\<exists>s. binit N (boot B d) = Inr s \<and> pool_wf N (bk_init N) s \<and>
     (\<forall>p. same_contents (mem s p) (zero_buf B)) \<and> ticks s = 0 \<and> disk s = d \<and> xfers s = []"
proof -
  let ?s0 = "(boot B d)\<lparr>mem := binit_heads [0..<MODNUM] (mem (boot B d))\<rparr>"
  have c0: "\<forall>p. same_contents (mem ?s0 p) (zero_buf B)"
    using binit_heads_contents [of "[0..<MODNUM]" "mem (boot B d)"] by (simp add: boot_def)
  have b0: "buckets (mem ?s0) (\<lambda>i. [])" by (simp add: binit_heads_buckets)
  have l0: "\<forall>p. lock (mem ?s0 p) = None"
    using c0 by (simp add: same_contents_def zero_buf_def)
  have "\<exists>s. binit_bufs [0..<N] ?s0 = Inr s \<and>
          buckets (mem s) ((\<lambda>i. [])(0 := rev [0..<N] @ [])) \<and> relinked ?s0 s"
    by (rule binit_bufs_ok [OF b0 _ _ _ _ l0]) simp_all
  then obtain s where r: "binit_bufs [0..<N] ?s0 = Inr s"
    and b: "buckets (mem s) ((\<lambda>i. [])(0 := rev [0..<N] @ []))" and rl: "relinked ?s0 s"
    by blast
  have e: "(\<lambda>i. [])(0 := rev [0..<N] @ []) = bk_init N"
    by (rule ext) (simp add: bk_init_def)
  have z: "0 < MODNUM" by (simp add: MODNUM_def)
  have b': "buckets (mem s) (bk_init N)" using b unfolding e .
  have "pool_wf N (bk_init N) s"
    unfolding pool_wf_def using b' z by (auto simp: bk_init_def)
  moreover have "\<forall>p. same_contents (mem s p) (zero_buf B)"
    using rl c0 by (simp add: relinked_def same_contents_def)
  moreover have "ticks s = 0" "disk s = d" "xfers s = []"
    using relinked_fields(8,9,10) [OF rl] by (simp_all add: boot_def)
  ultimately show ?thesis using r by (simp add: binit_def)
qed

section \<open>bget and bread\<close>

lemma bget_hit:
  assumes "bhashget (bhashgetline bn) dv bn s = Some (Inr b)" and "b \<noteq> Null"
  shows "bget env pid dv bn s =
     (if lock (mem s b) = None
      then Some (Inr (b, s\<lparr>mem := (mem s)(b := (mem s b)
             \<lparr>refcnt := refcnt (mem s b) + 1, lock := Some pid\<rparr>)\<rparr>))
      else None)"
  using assms by (simp add: bget_def acquiresleep_def Let_def)

lemma bget_miss_evict:
  assumes "bhashget (bhashgetline bn) dv bn s = Some (Inr Null)"
  shows "bget env pid dv bn s = bget_evict env 0 pid dv bn s"
  using assms by (simp add: bget_def)

lemma quiet_id: "quiet n s = s"
  by (simp add: quiet_def)

text \<open>
  What a lookup in a well-formed bucket returns: the first slot of the bucket with the
  identity asked for.
\<close>

lemma find_SomeD: "find P xs = Some x \<Longrightarrow> x \<in> set xs \<and> P x"
  by (induction xs) (auto split: if_splits)

lemma bhashget_miss_iff:
  assumes "pool_wf N bk s" and "h < MODNUM"
  shows "(bhashget h dv bn s = Some (Inr Null)) =
           (\<forall>x\<in>set (bk h). ident s x \<noteq> (dv, bn))"
proof -
  have bk: "buckets (mem s) bk" using assms by (simp add: pool_wf_def)
  show ?thesis
    unfolding bhashget_find [OF bk assms(2)]
    by (auto simp: ident_def find_None_iff dest: find_SomeD split: option.splits)
qed

lemma bhashget_hit:
  assumes "pool_wf N bk s" and "h < MODNUM" and "bhashget h dv bn s = Some (Inr b)" and "b \<noteq> Null"
  shows "\<exists>x. b = Slot x \<and> x \<in> set (bk h) \<and> ident s x = (dv, bn)"
proof -
  have bk: "buckets (mem s) bk" using assms by (simp add: pool_wf_def)
  from assms(3,4) show ?thesis
    unfolding bhashget_find [OF bk assms(2)]
    by (auto simp: ident_def dest: find_SomeD split: option.splits)
qed

lemma bhashget_cong:
  assumes "buckets (mem s) bk" and "h < MODNUM"
    and "\<And>p. bnext (mem s' p) = bnext (mem s p)" and "\<And>p. bprev (mem s' p) = bprev (mem s p)"
    and "\<And>p. dev (mem s' p) = dev (mem s p)" and "\<And>p. blockno (mem s' p) = blockno (mem s p)"
  shows "bhashget h dv bn s' = bhashget h dv bn s"
proof -
  have "buckets (mem s') bk" using assms(1) buckets_cong [of "mem s'" "mem s" bk] assms(3,4) by simp
  then show ?thesis
    unfolding bhashget_find [OF assms(1,2)] bhashget_find [OF \<open>buckets (mem s') bk\<close> assms(2)]
    by (simp add: assms(5,6))
qed

section \<open>The miss path\<close>

lemma bget_miss_returns:
  assumes wf: "pool_wf N bk s"
    and miss: "bhashget (bhashgetline bn) dv bn s = Some (Inr Null)"
    and env: "env 0 s = s"
    and ret: "bget env pid dv bn s = Some (Inr (b, s'))"
  shows "\<exists>v j. b = Slot v \<and> is_lru (mem s) (map Slot (scan_order bk)) (Slot v) \<and>
           timestamp (mem s (Slot v)) < 0xFFFFFFFF \<and>
           j < MODNUM \<and> v \<in> set (bk j) \<and> lock (mem s (Slot v)) = None \<and>
           pool_wf N (moved bk v j (bhashgetline bn)) s' \<and>
           relinked (s\<lparr>mem := (mem s)(Slot v := (mem s (Slot v))
              \<lparr>dev := dv, blockno := bn, valid := False, refcnt := 1, lock := Some pid\<rparr>)\<rparr>) s'"
proof -
  have bk: "buckets (mem s) bk" using wf by (simp add: pool_wf_def)
  have ev: "bget_evict env 0 pid dv bn s = Some (Inr (b, s'))"
    using ret bget_miss_evict [OF miss] by simp
  have "\<exists>x\<in>set (scan_order bk). refcnt (mem s (Slot x)) = 0 \<and>
          timestamp (mem s (Slot x)) < 0xFFFFFFFF"
  proof (rule ccontr)
    assume "\<not> ?thesis"
    then have "bget_evict env 0 pid dv bn s = Some (Inl (Panic ''bget: no buffers''))"
      by (intro bget_evict_panic [OF bk]) auto
    with ev show False by simp
  qed
  then obtain v where sc: "scan s = Some (Inr (Slot v, timestamp (mem s (Slot v))))"
    and l: "is_lru (mem s) (map Slot (scan_order bk)) (Slot v)" and vin: "v \<in> set (scan_order bk)"
    and lt: "timestamp (mem s (Slot v)) < 0xFFFFFFFF"
    using scan_picks [OF bk] by blast
  have r0: "refcnt (mem s (Slot v)) = 0" by (rule is_lru_min(2) [OF l])
  obtain j where j: "j < MODNUM" "v \<in> set (bk j)" using vin by (auto simp: set_scan_order)
  have rc: "recycle pid dv bn (Slot v) s = Some (Inr (b, s'))"
    using bget_evict_round [OF sc, of env 0 pid dv bn] r0 env ev by simp
  obtain s1 where r1: "recycle pid dv bn (Slot v) s =
             (if lock (mem s (Slot v)) = None then Some (Inr (Slot v, s1)) else None)"
    and w1: "pool_wf N (moved bk v j (bhashgetline bn)) s1"
    and rl: "relinked (s\<lparr>mem := (mem s)(Slot v := (mem s (Slot v))
              \<lparr>dev := dv, blockno := bn, valid := False, refcnt := 1, lock := Some pid\<rparr>)\<rparr>) s1"
    using recycle_ok [OF wf j, of pid dv bn] by blast
  from rc r1 have "lock (mem s (Slot v)) = None" "b = Slot v" "s' = s1"
    by (auto split: if_splits)
  with l lt j w1 rl show ?thesis by blast
qed

lemma bget_miss_ok:
  assumes wf: "pool_wf N bk s"
    and miss: "bhashget (bhashgetline bn) dv bn s = Some (Inr Null)"
    and elig: "\<exists>x<N. refcnt (mem s (Slot x)) = 0 \<and> timestamp (mem s (Slot x)) < 0xFFFFFFFF"
    and free: "\<forall>x<N. refcnt (mem s (Slot x)) = 0 \<longrightarrow> lock (mem s (Slot x)) = None"
    and env: "env 0 s = s"
  shows "\<exists>v s'. bget env pid dv bn s = Some (Inr (Slot v, s'))"
  using bget_evict_ok [where env = env and n = 0, OF wf elig free env, of pid dv bn]
    bget_miss_evict [OF miss, of env pid]
  by auto

lemma bread_of_bget:
  assumes "bget env pid dv bn s = Some (Inr (b, s1))"
  shows "bread env pid dv bn s = Some (Inr (b,
     if valid (mem s1 b) then s1
     else s1\<lparr>mem := (mem s1)(b := (mem s1 b)
             \<lparr>data := disk s1 (dev (mem s1 b), blockno (mem s1 b)), valid := True\<rparr>),
           xfers := xfers s1 @ [(b, False)]\<rparr>))"
  using assms by (simp add: bread_def virtio_disk_rw_def Let_def)

lemma bread_of_bget_error:
  assumes "bget env pid dv bn s = Some (Inl e)"
  shows "bread env pid dv bn s = Some (Inl e)"
  using assms by (simp add: bread_def)

section \<open>The example runs\<close>

lemma bhashgetline_small: "unat bn < 19 \<Longrightarrow> bhashgetline bn = unat bn"
  by (simp add: bhashgetline_def MODNUM_def)

lemma bk_init_mem: "(v \<in> set (bk_init N j)) = (j = 0 \<and> v < N)"
  by (auto simp: bk_init_def)

lemma pool1_props:
  shows "binit 1 (boot 1 ex_disk) = Inr pool1" and "pool_wf 1 (bk_init 1) pool1"
    and "\<And>p. same_contents (mem pool1 p) (zero_buf 1)"
    and "ticks pool1 = 0" and "disk pool1 = ex_disk" and "xfers pool1 = []"
proof -
  obtain s where s: "binit 1 (boot 1 ex_disk) = Inr s" "pool_wf 1 (bk_init 1) s"
    "\<forall>p. same_contents (mem s p) (zero_buf 1)" "ticks s = 0" "disk s = ex_disk" "xfers s = []"
    using binit_ok [of 1 1 ex_disk] by blast
  then have e: "pool1 = s" by (simp add: pool1_def)
  show "binit 1 (boot 1 ex_disk) = Inr pool1" and "pool_wf 1 (bk_init 1) pool1"
    and "\<And>p. same_contents (mem pool1 p) (zero_buf 1)"
    and "ticks pool1 = 0" and "disk pool1 = ex_disk" and "xfers pool1 = []"
    using s unfolding e by simp_all
qed

lemma pool1_miss: "bn \<noteq> 0 \<Longrightarrow> unat bn < 19 \<Longrightarrow> bhashget (bhashgetline bn) dv bn pool1 = Some (Inr Null)"
  using bhashget_miss_iff [OF pool1_props(2) bhashgetline_less, of bn dv bn]
  by (simp add: bk_init_def bhashgetline_small unat_eq_0)

lemma pool1_read_props:
  shows "bread quiet 1 1 1 pool1 = Some (Inr (Slot 0, pool1_read))"
    and "pool_wf 1 (moved (bk_init 1) 0 0 1) pool1_read"
    and "same_contents (mem pool1_read (Slot 0))
           ((zero_buf 1)\<lparr>dev := 1, blockno := 1, valid := True, refcnt := 1,
                         lock := Some 1, data := [7]\<rparr>)"
    and "ticks pool1_read = 0" and "disk pool1_read = ex_disk"
    and "xfers pool1_read = [(Slot 0, False)]"
proof -
  have miss: "bhashget (bhashgetline 1) 1 1 pool1 = Some (Inr Null)"
    by (rule pool1_miss) simp_all
  have z: "\<And>p. refcnt (mem pool1 p) = 0 \<and> timestamp (mem pool1 p) = 0 \<and> lock (mem pool1 p) = None"
    using pool1_props(3) by (simp add: same_contents_def zero_buf_def)
  obtain v s1 where g: "bget quiet 1 1 1 pool1 = Some (Inr (Slot v, s1))"
    using bget_miss_ok [where env = quiet, OF pool1_props(2) miss _ _ quiet_id, of 1] z by auto
  obtain v' j where v': "Slot v = Slot v'" "j < MODNUM" "v' \<in> set (bk_init 1 j)"
    and w: "pool_wf 1 (moved (bk_init 1) v' j (bhashgetline 1)) s1"
    and rl: "relinked (pool1\<lparr>mem := (mem pool1)(Slot v' := (mem pool1 (Slot v'))
              \<lparr>dev := 1, blockno := 1, valid := False, refcnt := 1, lock := Some 1\<rparr>)\<rparr>) s1"
    using bget_miss_returns [where env = quiet, OF pool1_props(2) miss quiet_id g] by blast
  have v0: "v = 0" "v' = 0" "j = 0" using v' by (simp_all add: bk_init_mem)
  have h1: "bhashgetline 1 = 1" by (simp add: bhashgetline_small)
  have c1: "same_contents (mem s1 (Slot 0)) ((zero_buf 1)\<lparr>dev := 1, blockno := 1, valid := False,
      refcnt := 1, lock := Some 1\<rparr>)"
    using rl pool1_props(3) [of "Slot 0"] unfolding v0 by (simp add: relinked_def same_contents_def)
  let ?s2 = "s1\<lparr>mem := (mem s1)(Slot 0 := (mem s1 (Slot 0))
             \<lparr>data := disk s1 (dev (mem s1 (Slot 0)), blockno (mem s1 (Slot 0))), valid := True\<rparr>),
           xfers := xfers s1 @ [(Slot 0, False)]\<rparr>"
  have nv: "\<not> valid (mem s1 (Slot 0))" using c1 by (simp add: same_contents_def)
  have br: "bread quiet 1 1 1 pool1 = Some (Inr (Slot 0, ?s2))"
    using bread_of_bget [OF g] nv unfolding v0 by simp
  then have e: "pool1_read = ?s2" by (simp add: pool1_read_def)
  have d1: "disk s1 = ex_disk" "ticks s1 = 0" "xfers s1 = []"
    using relinked_fields(8,9,10) [OF rl] pool1_props(4,5,6) by simp_all
  show "bread quiet 1 1 1 pool1 = Some (Inr (Slot 0, pool1_read))" using br e by simp
  have "buckets (mem ?s2) (moved (bk_init 1) 0 0 1) = buckets (mem s1) (moved (bk_init 1) 0 0 1)"
    by (rule buckets_cong) simp_all
  then show "pool_wf 1 (moved (bk_init 1) 0 0 1) pool1_read"
    using w unfolding e v0 h1 by (simp add: pool_wf_def)
  show "same_contents (mem pool1_read (Slot 0))
           ((zero_buf 1)\<lparr>dev := 1, blockno := 1, valid := True, refcnt := 1,
                         lock := Some 1, data := [7]\<rparr>)"
    using c1 d1 unfolding e by (simp add: same_contents_def ex_disk_def)
  show "ticks pool1_read = 0" "disk pool1_read = ex_disk" "xfers pool1_read = [(Slot 0, False)]"
    using d1 unfolding e by simp_all
qed

lemma pool1_read_reachable: "reachable 1 pool1_read"
  using reachable.r_bread [OF reachable.r_binit [OF pool1_props(1)] pool1_read_props(1)] .


section \<open>Eviction\<close>

text \<open>
  The victim of a miss, when the scan finds one: in a well-formed pool where some
  unreferenced slot has a timestamp below \<open>0xFFFFFFFF\<close> and no unreferenced slot is
  locked, a sequential \<^verbatim>\<open>bget\<close> that misses returns an unreferenced slot whose timestamp
  is the smallest among all unreferenced slots of the pool, whatever bucket they are in,
  and that is the first such slot in scan order.
\<close>

lemma bget_evicts_global_lru:
  assumes wf: "pool_wf N bk s"
    and miss: "bhashget (bhashgetline bn) dv bn s = Some (Inr Null)"
    and elig: "\<exists>x<N. refcnt (mem s (Slot x)) = 0 \<and> timestamp (mem s (Slot x)) < 0xFFFFFFFF"
    and free: "\<forall>x<N. refcnt (mem s (Slot x)) = 0 \<longrightarrow> lock (mem s (Slot x)) = None"
  shows "\<exists>v s'. bget quiet pid dv bn s = Some (Inr (Slot v, s')) \<and> v < N \<and>
           refcnt (mem s (Slot v)) = 0 \<and>
           (\<forall>y<N. refcnt (mem s (Slot y)) = 0 \<longrightarrow>
                    timestamp (mem s (Slot v)) \<le> timestamp (mem s (Slot y))) \<and>
           is_lru (mem s) (map Slot (scan_order bk)) (Slot v)"
proof -
  obtain v s' where g: "bget quiet pid dv bn s = Some (Inr (Slot v, s'))"
    using bget_miss_ok [where env = quiet, OF wf miss elig free quiet_id] by blast
  obtain v' where v': "Slot v = Slot v'"
    and l: "is_lru (mem s) (map Slot (scan_order bk)) (Slot v')"
    using bget_miss_returns [where env = quiet, OF wf miss quiet_id g] by blast
  have so: "set (scan_order bk) = {..<N}" by (rule pool_wf_scan_order [OF wf])
  have "v \<in> set (scan_order bk)" using is_lru_min(1) [OF l] v' by auto
  then have "v < N" using so by simp
  moreover have "refcnt (mem s (Slot v)) = 0" using is_lru_min(2) [OF l] v' by simp
  moreover have "timestamp (mem s (Slot v)) \<le> timestamp (mem s (Slot y))"
    if "y < N" "refcnt (mem s (Slot y)) = 0" for y
  proof -
    have "Slot y \<in> set (map Slot (scan_order bk))" using that so by simp
    then show ?thesis using is_lru_min(3) [OF l _ that(2)] v' by simp
  qed
  ultimately show ?thesis using g l v' by auto
qed

lemma bget_max_stamp_panics:
  assumes wf: "pool_wf N bk s"
    and miss: "bhashget (bhashgetline bn) dv bn s = Some (Inr Null)"
    and late: "\<forall>x<N. refcnt (mem s (Slot x)) = 0 \<longrightarrow> timestamp (mem s (Slot x)) = 0xFFFFFFFF"
  shows "bget env pid dv bn s = Some (Inl (Panic ''bget: no buffers''))"
proof -
  have bk: "buckets (mem s) bk" using wf by (simp add: pool_wf_def)
  have so: "set (scan_order bk) = {..<N}" by (rule pool_wf_scan_order [OF wf])
  have "bget_evict env 0 pid dv bn s = Some (Inl (Panic ''bget: no buffers''))"
    by (rule bget_evict_panic [OF bk]) (use late so in auto)
  then show ?thesis using bget_miss_evict [OF miss] by simp
qed

text \<open>
  C3: in a well-formed pool, when the lookup in the bucket of the block number misses and
  no slot of the pool has reference count 0, \<^verbatim>\<open>bget\<close> ends in the panic
  \<^verbatim>\<open>bget: no buffers\<close>, whatever other processors do: it does not sleep, does not go
  round the loop again and returns no value. \<^verbatim>\<open>bread\<close> ends in the same panic.
\<close>

theorem bget_no_victim_panics:
  assumes "pool_wf N bk s"
    and "bhashget (bhashgetline bn) dv bn s = Some (Inr Null)"
    and "\<forall>x<N. refcnt (mem s (Slot x)) \<noteq> 0"
  shows "bget env pid dv bn s = Some (Inl (Panic ''bget: no buffers'')) \<and>
         bread env pid dv bn s = Some (Inl (Panic ''bget: no buffers''))"
proof -
  have "bget env pid dv bn s = Some (Inl (Panic ''bget: no buffers''))"
    by (rule bget_max_stamp_panics [OF assms(1,2)]) (use assms(3) in simp)
  then show ?thesis using bread_of_bget_error by simp
qed

lemma pool1_read_miss:
  "bn \<noteq> 1 \<Longrightarrow> bhashget (bhashgetline bn) dv bn pool1_read = Some (Inr Null)"
proof -
  assume n: "bn \<noteq> 1"
  have i: "ident pool1_read 0 = (1, 1)"
    using pool1_read_props(3) by (simp add: ident_def same_contents_def)
  have "\<forall>x\<in>set (moved (bk_init 1) 0 0 1 (bhashgetline bn)). ident pool1_read x \<noteq> (dv, bn)"
    using i n by (auto simp: moved_def bk_init_def split: if_splits)
  then show ?thesis
    using bhashget_miss_iff [OF pool1_read_props(2) bhashgetline_less] by simp
qed

theorem bget_no_victim_panics_witness:
  "bread quiet 1 1 1 pool1 = Some (Inr (Slot 0, pool1_read)) \<and>
   refcnt (mem pool1_read (Slot 0)) = 1 \<and>
   bget quiet 2 1 2 pool1_read = Some (Inl (Panic ''bget: no buffers'')) \<and>
   bread quiet 2 1 2 pool1_read = Some (Inl (Panic ''bget: no buffers''))"
proof -
  have r: "refcnt (mem pool1_read (Slot 0)) = 1"
    using pool1_read_props(3) by (simp add: same_contents_def)
  have "bhashget (bhashgetline 2) 1 2 pool1_read = Some (Inr Null)"
    by (rule pool1_read_miss) simp
  moreover have "\<forall>x<1. refcnt (mem pool1_read (Slot x)) \<noteq> 0" using r by simp
  ultimately show ?thesis
    using bget_no_victim_panics [OF pool1_read_props(2), of 2 1 quiet 2] pool1_read_props(1) r
    by simp
qed



section \<open>Releasing and unpinning\<close>

lemma pool_wf_cong:
  assumes "\<And>p. bnext (mem s' p) = bnext (mem s p)" and "\<And>p. bprev (mem s' p) = bprev (mem s p)"
  shows "pool_wf N bk s' = pool_wf N bk s"
  using buckets_cong [of "mem s'" "mem s" bk] assms by (simp add: pool_wf_def)

lemma brelse_effect:
  assumes "b \<noteq> Null" and "holdingsleep pid b s"
  shows "brelse pid b s = Inr (s\<lparr>mem := (mem s)(b := (mem s b)
           \<lparr>lock := None, refcnt := refcnt (mem s b) - 1, timestamp := ticks s\<rparr>)\<rparr>)"
  using assms by (simp add: brelse_def releasesleep_def Let_def)

lemma bpin_effect:
  "b \<noteq> Null \<Longrightarrow> bpin b s = Inr (s\<lparr>mem := (mem s)(b := (mem s b)\<lparr>refcnt := refcnt (mem s b) + 1\<rparr>)\<rparr>)"
  by (simp add: bpin_def)

lemma bunpin_effect:
  "b \<noteq> Null \<Longrightarrow> bunpin b s = Inr (s\<lparr>mem := (mem s)(b := (mem s b)\<lparr>refcnt := refcnt (mem s b) - 1\<rparr>)\<rparr>)"
  by (simp add: bunpin_def)

lemma pool1_pinned_props:
  shows "bpin (Slot 0) pool1_read = Inr pool1_pinned"
    and "refcnt (mem pool1_pinned (Slot 0)) = 2"
    and "timestamp (mem pool1_pinned (Slot 0)) = 0"
    and "lock (mem pool1_pinned (Slot 0)) = Some 1"
proof -
  have e: "pool1_pinned = pool1_read\<lparr>mem := (mem pool1_read)(Slot 0 := (mem pool1_read (Slot 0))
      \<lparr>refcnt := refcnt (mem pool1_read (Slot 0)) + 1\<rparr>)\<rparr>"
    by (simp add: pool1_pinned_def bpin_effect)
  show "bpin (Slot 0) pool1_read = Inr pool1_pinned" by (simp add: e bpin_effect)
  show "refcnt (mem pool1_pinned (Slot 0)) = 2" "timestamp (mem pool1_pinned (Slot 0)) = 0"
    "lock (mem pool1_pinned (Slot 0)) = Some 1"
    using pool1_read_props(3) by (simp_all add: e same_contents_def zero_buf_def)
qed

text \<open>
  C5, as the code has it: \<^verbatim>\<open>brelse\<close> by the holder of the content lock releases the lock,
  lowers the reference count by one and sets the timestamp of the buffer to the current
  \<^verbatim>\<open>ticks\<close>, whether or not the count has reached 0; the identity, the valid flag, the
  payload and the pointers of the buffer, every other buffer, \<^verbatim>\<open>ticks\<close>, the disk and
  the transfer log are unchanged.
\<close>

theorem brelse_stamps_always:
  assumes "b \<noteq> Null" and "holdingsleep pid b s"
  shows "\<exists>s'. brelse pid b s = Inr s' \<and>
     lock (mem s' b) = None \<and> refcnt (mem s' b) = refcnt (mem s b) - 1 \<and>
     timestamp (mem s' b) = ticks s \<and>
     dev (mem s' b) = dev (mem s b) \<and> blockno (mem s' b) = blockno (mem s b) \<and>
     valid (mem s' b) = valid (mem s b) \<and> data (mem s' b) = data (mem s b) \<and>
     bnext (mem s' b) = bnext (mem s b) \<and> bprev (mem s' b) = bprev (mem s b) \<and>
     (\<forall>p. p \<noteq> b \<longrightarrow> mem s' p = mem s p) \<and>
     ticks s' = ticks s \<and> disk s' = disk s \<and> xfers s' = xfers s"
  using brelse_effect [OF assms] by simp

theorem brelse_stamps_always_witness:
  "\<exists>s'. brelse 1 (Slot 0) (pool1_pinned\<lparr>ticks := 7\<rparr>) = Inr s' \<and>
     lock (mem s' (Slot 0)) = None \<and> refcnt (mem s' (Slot 0)) = 1 \<and>
     timestamp (mem s' (Slot 0)) = 7"
  using brelse_stamps_always [of "Slot 0" 1 "pool1_pinned\<lparr>ticks := 7\<rparr>"] pool1_pinned_props
  by (auto simp: holdingsleep_def)

text \<open>
  C5 as stated fails: process 1 reads block 1 of device 1 into the only buffer, pins it,
  and releases it at tick 7. The release leaves the reference count at 1, and yet the
  timestamp of the buffer goes from 0 to 7.
\<close>

theorem brelse_stamps_referenced_counterexample:
  "binit 1 (boot 1 ex_disk) = Inr pool1 \<and>
   bread quiet 1 1 1 pool1 = Some (Inr (Slot 0, pool1_read)) \<and>
   bpin (Slot 0) pool1_read = Inr pool1_pinned \<and>
   brelse 1 (Slot 0) (pool1_pinned\<lparr>ticks := 7\<rparr>) = Inr pool1_released \<and>
   refcnt (mem pool1_released (Slot 0)) = 1 \<and>
   timestamp (mem pool1_pinned (Slot 0)) = 0 \<and>
   timestamp (mem pool1_released (Slot 0)) = 7"
proof -
  have h: "holdingsleep 1 (Slot 0) (pool1_pinned\<lparr>ticks := 7\<rparr>)"
    using pool1_pinned_props(4) by (simp add: holdingsleep_def)
  have n: "Slot 0 \<noteq> Null" by simp
  note eff = brelse_effect [OF n h]
  have e: "brelse 1 (Slot 0) (pool1_pinned\<lparr>ticks := 7\<rparr>) = Inr pool1_released"
    unfolding pool1_released_def eff by (simp only: sum.sel)
  have "refcnt (mem pool1_released (Slot 0)) = 1" "timestamp (mem pool1_released (Slot 0)) = 7"
    unfolding pool1_released_def eff using pool1_pinned_props(2) by simp_all
  then show ?thesis
    using e pool1_props(1) pool1_read_props(1) pool1_pinned_props(1,3) by simp
qed

text \<open>
  C8, as the code has it: \<^verbatim>\<open>bunpin\<close> checks nothing. It always returns, with the
  reference count lowered by one in 32-bit arithmetic, so that at reference count 0 it
  leaves the count at \<open>0xFFFFFFFF\<close>.
\<close>

theorem bunpin_unchecked:
  assumes "b \<noteq> Null"
  shows "\<exists>s'. bunpin b s = Inr s' \<and> refcnt (mem s' b) = refcnt (mem s b) - 1 \<and>
     (refcnt (mem s b) = 0 \<longrightarrow> refcnt (mem s' b) = 0xFFFFFFFF)"
  using bunpin_effect [OF assms] by simp

theorem bunpin_unchecked_witness:
  "\<exists>s'. bunpin (Slot 0) pool1 = Inr s' \<and> refcnt (mem pool1 (Slot 0)) = 0 \<and>
     refcnt (mem s' (Slot 0)) = 0xFFFFFFFF"
  using bunpin_unchecked [of "Slot 0" pool1] pool1_props(3) [of "Slot 0"]
  by (auto simp: same_contents_def zero_buf_def)

text \<open>
  C8 as stated fails: right after \<^verbatim>\<open>binit\<close> the only buffer has reference count 0, and
  \<^verbatim>\<open>bunpin\<close> of it returns normally with the count wrapped to \<open>0xFFFFFFFF\<close>.
\<close>

theorem bunpin_wraps_counterexample:
  "binit 1 (boot 1 ex_disk) = Inr pool1 \<and> refcnt (mem pool1 (Slot 0)) = 0 \<and>
   bunpin (Slot 0) pool1 =
     Inr (pool1\<lparr>mem := (mem pool1)(Slot 0 := (mem pool1 (Slot 0))\<lparr>refcnt := 0xFFFFFFFF\<rparr>)\<rparr>)"
proof -
  have w: "(0 :: 32 word) - 1 = 0xFFFFFFFF" by simp
  have r: "refcnt (mem pool1 (Slot 0)) = 0"
    using pool1_props(3) [of "Slot 0"] by (simp add: same_contents_def zero_buf_def)
  have n: "Slot 0 \<noteq> Null" by simp
  show ?thesis
    unfolding bunpin_effect [OF n] r w using pool1_props(1) r by simp
qed

section \<open>Reading after writing\<close>

lemma bwrite_effect:
  assumes "b \<noteq> Null" and "holdingsleep pid b s"
  shows "bwrite pid b s =
     Inr (s\<lparr>disk := (disk s)((dev (mem s b), blockno (mem s b)) := data (mem s b)),
            xfers := xfers s @ [(b, True)]\<rparr>)"
  using assms by (simp add: bwrite_def virtio_disk_rw_def)

text \<open>
  C6: let \<open>b\<close> be the buffer that the lookup finds for \<open>(dv, bn)\<close> in a well-formed pool,
  valid and with its content lock held by process \<open>pid\<close>. Then \<^verbatim>\<open>bwrite\<close> and \<^verbatim>\<open>brelse\<close>
  by \<open>pid\<close> return, and a following \<^verbatim>\<open>bread\<close> of \<open>(dv, bn)\<close> by any process, whatever
  other processors do in the eviction gap, returns the same buffer \<open>b\<close>, locked by the
  reader, still valid, with the payload that was written, which is also what the disk
  holds for the block. The transfer log has grown by the one write only: there is no
  device read.
\<close>

theorem read_after_write:
  assumes wf: "pool_wf N bk s"
    and hit: "bhashget (bhashgetline bn) dv bn s = Some (Inr b)" and nn: "b \<noteq> Null"
    and held: "holdingsleep pid b s" and v: "valid (mem s b)"
  shows "\<exists>s1 s2 s3. bwrite pid b s = Inr s1 \<and> brelse pid b s1 = Inr s2 \<and>
     bread env pid' dv bn s2 = Some (Inr (b, s3)) \<and>
     data (mem s3 b) = data (mem s b) \<and> disk s3 (dv, bn) = data (mem s b) \<and>
     valid (mem s3 b) \<and> xfers s3 = xfers s @ [(b, True)] \<and>
     holdingsleep pid' b s3 \<and> refcnt (mem s3 b) = refcnt (mem s b)"
proof -
  have bk: "buckets (mem s) bk" using wf by (simp add: pool_wf_def)
  obtain x where x: "b = Slot x" "ident s x = (dv, bn)"
    using bhashget_hit [OF wf bhashgetline_less hit nn] by blast
  then have id: "dev (mem s b) = dv" "blockno (mem s b) = bn" by (simp_all add: ident_def)
  define s1 where "s1 = s\<lparr>disk := (disk s)((dev (mem s b), blockno (mem s b)) := data (mem s b)),
            xfers := xfers s @ [(b, True)]\<rparr>"
  define s2 where "s2 = s1\<lparr>mem := (mem s1)(b := (mem s1 b)
           \<lparr>lock := None, refcnt := refcnt (mem s1 b) - 1, timestamp := ticks s1\<rparr>)\<rparr>"
  define s3 where "s3 = s2\<lparr>mem := (mem s2)(b := (mem s2 b)
             \<lparr>refcnt := refcnt (mem s2 b) + 1, lock := Some pid'\<rparr>)\<rparr>"
  have w: "bwrite pid b s = Inr s1" unfolding s1_def by (rule bwrite_effect [OF nn held])
  have h1: "holdingsleep pid b s1" using held by (simp add: s1_def holdingsleep_def)
  have r: "brelse pid b s1 = Inr s2" unfolding s2_def by (rule brelse_effect [OF nn h1])
  have "bhashget (bhashgetline bn) dv bn s2 = bhashget (bhashgetline bn) dv bn s"
    by (rule bhashget_cong [OF bk bhashgetline_less]) (simp_all add: s2_def s1_def)
  then have hit2: "bhashget (bhashgetline bn) dv bn s2 = Some (Inr b)" using hit by simp
  have "lock (mem s2 b) = None" by (simp add: s2_def)
  then have g: "bget env pid' dv bn s2 = Some (Inr (b, s3))"
    using bget_hit [OF hit2 nn, of env pid'] by (simp add: s3_def)
  have v3: "valid (mem s3 b)" using v by (simp add: s3_def s2_def s1_def)
  have rd: "bread env pid' dv bn s2 = Some (Inr (b, s3))"
    using bread_of_bget [OF g] v3 by simp
  have "data (mem s3 b) = data (mem s b)" "disk s3 (dv, bn) = data (mem s b)"
    "xfers s3 = xfers s @ [(b, True)]" "holdingsleep pid' b s3"
    "refcnt (mem s3 b) = refcnt (mem s b)"
    using id by (simp_all add: s3_def s2_def s1_def holdingsleep_def)
  with w r rd v3 show ?thesis by blast
qed

lemma pool1_read_hit: "bhashget (bhashgetline 1) 1 1 pool1_read = Some (Inr (Slot 0))"
proof -
  have bk: "buckets (mem pool1_read) (moved (bk_init 1) 0 0 1)"
    using pool1_read_props(2) by (simp add: pool_wf_def)
  have h: "bhashgetline 1 = 1" by (simp add: bhashgetline_small)
  have l: "(1 :: nat) < MODNUM" by (simp add: MODNUM_def)
  have b1: "moved (bk_init 1) 0 0 1 1 = [0]" by (simp add: moved_def bk_init_def)
  have i: "dev (mem pool1_read (Slot 0)) = 1" "blockno (mem pool1_read (Slot 0)) = 1"
    using pool1_read_props(3) by (simp_all add: same_contents_def)
  show ?thesis unfolding h bhashget_find [OF bk l] b1 using i by simp
qed

theorem read_after_write_witness:
  "\<exists>s1 s2 s3. bwrite 1 (Slot 0) pool1_read = Inr s1 \<and> brelse 1 (Slot 0) s1 = Inr s2 \<and>
     bread quiet 2 1 1 s2 = Some (Inr (Slot 0, s3)) \<and>
     data (mem s3 (Slot 0)) = [7] \<and> disk s3 (1, 1) = [7] \<and> valid (mem s3 (Slot 0)) \<and>
     xfers s3 = [(Slot 0, False), (Slot 0, True)]"
proof -
  have p: "holdingsleep 1 (Slot 0) pool1_read" "valid (mem pool1_read (Slot 0))"
    "data (mem pool1_read (Slot 0)) = [7]"
    using pool1_read_props(3) by (simp_all add: same_contents_def holdingsleep_def)
  have n: "Slot 0 \<noteq> Null" by simp
  show ?thesis
    using read_after_write [OF pool1_read_props(2) pool1_read_hit n p(1,2), of quiet 2]
      p(3) pool1_read_props(6)
    by auto
qed

section \<open>A free buffer that the scan does not see\<close>

lemma pool1_late_props:
  shows "brelse 1 (Slot 0) (pool1_read\<lparr>ticks := 0xFFFFFFFF\<rparr>) = Inr pool1_late"
    and "pool_wf 1 (moved (bk_init 1) 0 0 1) pool1_late"
    and "same_contents (mem pool1_late (Slot 0))
           ((zero_buf 1)\<lparr>dev := 1, blockno := 1, valid := True, refcnt := 0,
                         lock := None, timestamp := 0xFFFFFFFF, data := [7]\<rparr>)"
proof -
  have h: "holdingsleep 1 (Slot 0) (pool1_read\<lparr>ticks := 0xFFFFFFFF\<rparr>)"
    using pool1_read_props(3) by (simp add: same_contents_def holdingsleep_def)
  have n: "Slot 0 \<noteq> Null" by simp
  note eff = brelse_effect [OF n h]
  show "brelse 1 (Slot 0) (pool1_read\<lparr>ticks := 0xFFFFFFFF\<rparr>) = Inr pool1_late"
    unfolding pool1_late_def eff by (simp only: sum.sel)
  have "pool_wf 1 (moved (bk_init 1) 0 0 1) pool1_late =
      pool_wf 1 (moved (bk_init 1) 0 0 1) pool1_read"
    unfolding pool1_late_def eff by (rule pool_wf_cong) simp_all
  then show "pool_wf 1 (moved (bk_init 1) 0 0 1) pool1_late"
    using pool1_read_props(2) by simp
  show "same_contents (mem pool1_late (Slot 0))
           ((zero_buf 1)\<lparr>dev := 1, blockno := 1, valid := True, refcnt := 0,
                         lock := None, timestamp := 0xFFFFFFFF, data := [7]\<rparr>)"
    unfolding pool1_late_def eff using pool1_read_props(3)
    by (simp add: same_contents_def)
qed

text \<open>
  C1 fails at the largest timestamp. Process 1 reads block 1 of device 1 into the only
  buffer and releases it when \<^verbatim>\<open>ticks\<close> is \<open>0xFFFFFFFF\<close>. The buffer then has reference
  count 0, is unlocked and carries the timestamp \<open>0xFFFFFFFF\<close>, which is also the
  start value of \<^verbatim>\<open>lru_time\<close>; the scan asks for a timestamp strictly below
  \<^verbatim>\<open>lru_time\<close>, picks nothing, and \<^verbatim>\<open>bget\<close> of block 2 panics with
  \<^verbatim>\<open>bget: no buffers\<close> although a buffer with reference count 0 is there.
\<close>

theorem bget_overlooks_late_buffer:
  "binit 1 (boot 1 ex_disk) = Inr pool1 \<and>
   bread quiet 1 1 1 pool1 = Some (Inr (Slot 0, pool1_read)) \<and>
   brelse 1 (Slot 0) (pool1_read\<lparr>ticks := 0xFFFFFFFF\<rparr>) = Inr pool1_late \<and>
   reachable 1 pool1_late \<and>
   refcnt (mem pool1_late (Slot 0)) = 0 \<and> lock (mem pool1_late (Slot 0)) = None \<and>
   timestamp (mem pool1_late (Slot 0)) = 0xFFFFFFFF \<and>
   bhashget (bhashgetline 2) 1 2 pool1_late = Some (Inr Null) \<and>
   bget quiet 1 1 2 pool1_late = Some (Inl (Panic ''bget: no buffers''))"
proof -
  have c: "refcnt (mem pool1_late (Slot 0)) = 0" "lock (mem pool1_late (Slot 0)) = None"
    "timestamp (mem pool1_late (Slot 0)) = 0xFFFFFFFF" "ident pool1_late 0 = (1, 1)"
    using pool1_late_props(3) by (simp_all add: same_contents_def ident_def)
  have "\<forall>x\<in>set (moved (bk_init 1) 0 0 1 (bhashgetline 2)). ident pool1_late x \<noteq> (1, 2)"
    using c(4) by (auto simp: moved_def bk_init_def split: if_splits)
  then have miss: "bhashget (bhashgetline 2) 1 2 pool1_late = Some (Inr Null)"
    using bhashget_miss_iff [OF pool1_late_props(2) bhashgetline_less] by simp
  have "bget quiet 1 1 2 pool1_late = Some (Inl (Panic ''bget: no buffers''))"
    by (rule bget_max_stamp_panics [OF pool1_late_props(2) miss]) (use c in simp)
  moreover have "reachable 1 pool1_late"
    by (rule reachable.r_brelse [OF reachable.r_ticks [OF pool1_read_reachable]
          pool1_late_props(1)])
  ultimately show ?thesis
    using c miss pool1_props(1) pool1_read_props(1) pool1_late_props(1) by simp
qed

section \<open>Re-validation of the candidate\<close>

lemma recycle_returns_candidate:
  "recycle pid dv bn c s = Some (Inr (b, s')) \<Longrightarrow> b = c"
  by (auto simp: recycle_def Let_def split: sum.splits option.splits)

text \<open>
  Whatever the other processors do, a buffer that the eviction loop hands out was the
  candidate of some round, and in the state in which that round unlinked it, after the
  gap, it had reference count 0 and the timestamp that the scan had seen.
\<close>

lemma bget_evict_validated:
  assumes "bget_evict env n pid dv bn s = Some r"
  shows "\<forall>b s'. r = Inr (b, s') \<longrightarrow>
     (\<exists>k sk tk. scan sk = Some (Inr (b, tk)) \<and> b \<noteq> Null \<and>
        refcnt (mem (env k sk) b) = 0 \<and> timestamp (mem (env k sk) b) = tk \<and>
        recycle pid dv bn b (env k sk) = Some (Inr (b, s')))"
  using assms
proof (induction env n pid dv bn s r rule: bget_evict.raw_induct)
  case (1 f env n pid dv bn s r)
  show ?case
  proof (cases "scan s")
    case None
    with 1(2) show ?thesis by simp
  next
    case (Some a)
    show ?thesis
    proof (cases a)
      case (Inl e)
      with Some 1(2) show ?thesis by auto
    next
      case (Inr ct)
      obtain c t where ct: "ct = (c, t)" by (cases ct)
      note sc = Some [unfolded Inr ct]
      show ?thesis
      proof (cases "c = Null")
        case True
        with sc 1(2) show ?thesis by auto
      next
        case False
        show ?thesis
        proof (cases "refcnt (mem (env n s) c) \<noteq> 0 \<or> timestamp (mem (env n s) c) \<noteq> t")
          case True
          then have step: "f env (Suc n) pid dv bn (env n s) = Some r"
            using 1(2) sc False by (simp add: Let_def)
          have again: "bget_evict env (Suc n) pid dv bn (env n s) = Some r"
            using 1(3) bget_evict_round [OF sc False, of env n pid dv bn] True by simp
          show ?thesis by (rule 1(1) [OF step again])
        next
          case valid: False
          then have rc: "recycle pid dv bn c (env n s) = Some r"
            using 1(2) sc False by (simp add: Let_def)
          show ?thesis
          proof (intro allI impI)
            fix b s' assume r: "r = Inr (b, s')"
            then have "b = c" using rc recycle_returns_candidate by blast
            then show "\<exists>k sk tk. scan sk = Some (Inr (b, tk)) \<and> b \<noteq> Null \<and>
                refcnt (mem (env k sk) b) = 0 \<and> timestamp (mem (env k sk) b) = tk \<and>
                recycle pid dv bn b (env k sk) = Some (Inr (b, s'))"
              using sc False valid rc r by blast
          qed
        qed
      qed
    qed
  qed
qed (rule assms)

text \<open>
  What the test of the two fields decides, state by state: let the scan of a round pick
  the candidate \<open>c\<close> with timestamp \<open>t\<close>, and let \<open>env n s\<close> be the state when the loop
  looks at it again. If \<open>c\<close> then has a reference count other than 0 or a timestamp other
  than \<open>t\<close>, the round changes nothing and the loop starts the next round with a new scan
  of that state; if both still hold, the round recycles \<open>c\<close> in that state.
\<close>

lemma bget_evict_checks_state:
  assumes "scan s = Some (Inr (c, t))" and "c \<noteq> Null"
  shows "(refcnt (mem (env n s) c) \<noteq> 0 \<or> timestamp (mem (env n s) c) \<noteq> t \<longrightarrow>
            bget_evict env n pid dv bn s = bget_evict env (Suc n) pid dv bn (env n s)) \<and>
         (refcnt (mem (env n s) c) = 0 \<and> timestamp (mem (env n s) c) = t \<longrightarrow>
            bget_evict env n pid dv bn s = recycle pid dv bn c (env n s)) \<and>
         (\<forall>b s'. bget_evict env n pid dv bn s = Some (Inr (b, s')) \<longrightarrow>
            (\<exists>k sk tk. scan sk = Some (Inr (b, tk)) \<and> b \<noteq> Null \<and>
               refcnt (mem (env k sk) b) = 0 \<and> timestamp (mem (env k sk) b) = tk \<and>
               recycle pid dv bn b (env k sk) = Some (Inr (b, s'))))"
  using bget_evict_round [OF assms, of env n pid dv bn] bget_evict_validated [of env n pid dv bn s]
  by auto


lemma pool1_scan: "scan pool1 = Some (Inr (Slot 0, 0))"
proof -
  have bk: "buckets (mem pool1) (bk_init 1)" using pool1_props(2) by (simp add: pool_wf_def)
  have z: "refcnt (mem pool1 (Slot 0)) = 0" "timestamp (mem pool1 (Slot 0)) = 0"
    using pool1_props(3) [of "Slot 0"] by (simp_all add: same_contents_def zero_buf_def)
  have so: "set (scan_order (bk_init 1)) = {..<1}" by (rule pool_wf_scan_order [OF pool1_props(2)])
  then have "\<exists>x\<in>set (scan_order (bk_init 1)). refcnt (mem pool1 (Slot x)) = 0 \<and>
      timestamp (mem pool1 (Slot x)) < 0xFFFFFFFF"
    using z by simp
  then obtain v where "scan pool1 = Some (Inr (Slot v, timestamp (mem pool1 (Slot v))))"
    "v \<in> set (scan_order (bk_init 1))"
    using scan_picks [OF bk] by blast
  then show ?thesis using so z by simp
qed

lemma pool1_grabbed:
  shows "grab 0 pool1 = pool1\<lparr>mem := (mem pool1)(Slot 0 := (mem pool1 (Slot 0))
           \<lparr>refcnt := refcnt (mem pool1 (Slot 0)) + 1, lock := Some 2\<rparr>)\<rparr>"
proof -
  have bk: "buckets (mem pool1) (bk_init 1)" using pool1_props(2) by (simp add: pool_wf_def)
  have h: "bhashgetline 0 = 0" by (simp add: bhashgetline_small)
  have l: "(0 :: nat) < MODNUM" by (simp add: MODNUM_def)
  have z: "dev (mem pool1 (Slot 0)) = 0" "blockno (mem pool1 (Slot 0)) = 0"
    "lock (mem pool1 (Slot 0)) = None"
    using pool1_props(3) [of "Slot 0"] by (simp_all add: same_contents_def zero_buf_def)
  have hit: "bhashget (bhashgetline 0) 0 0 pool1 = Some (Inr (Slot 0))"
    unfolding h bhashget_find [OF bk l] using z by (simp add: bk_init_def)
  have n: "Slot 0 \<noteq> Null" by simp
  show ?thesis
    unfolding grab_def using bget_hit [OF hit n, of quiet 2] z(3) by simp
qed

text \<open>
  A candidate that another process still holds when the loop looks at it again is not
  recycled: the loop scans again, and in a pool of one buffer finds nothing.
\<close>

lemma pool1_held_candidate_retried:
  "scan pool1 = Some (Inr (Slot 0, 0)) \<and>
   refcnt (mem (grab 0 pool1) (Slot 0)) = 1 \<and>
   bget_evict grab 0 1 1 1 pool1 = bget_evict grab 1 1 1 1 (grab 0 pool1) \<and>
   bget_evict grab 0 1 1 1 pool1 = Some (Inl (Panic ''bget: no buffers''))"
proof -
  have n: "Slot 0 \<noteq> Null" by simp
  have z: "refcnt (mem pool1 (Slot 0)) = 0"
    using pool1_props(3) [of "Slot 0"] by (simp add: same_contents_def zero_buf_def)
  have r: "refcnt (mem (grab 0 pool1) (Slot 0)) = 1"
    unfolding pool1_grabbed using z by simp
  have again: "bget_evict grab 0 1 1 1 pool1 = bget_evict grab 1 1 1 1 (grab 0 pool1)"
    using bget_evict_checks_state [OF pool1_scan n, of grab 0 1 1 1] r by simp
  have "pool_wf 1 (bk_init 1) (grab 0 pool1) = pool_wf 1 (bk_init 1) pool1"
    unfolding pool1_grabbed by (rule pool_wf_cong) simp_all
  then have w: "pool_wf 1 (bk_init 1) (grab 0 pool1)" using pool1_props(2) by simp
  then have bk: "buckets (mem (grab 0 pool1)) (bk_init 1)" by (simp add: pool_wf_def)
  have so: "set (scan_order (bk_init 1)) = {..<1}" by (rule pool_wf_scan_order [OF w])
  have "bget_evict grab 1 1 1 1 (grab 0 pool1) = Some (Inl (Panic ''bget: no buffers''))"
    by (rule bget_evict_panic [OF bk]) (use so r in simp)
  with again r pool1_scan show ?thesis by simp
qed





section \<open>One slot for one identity\<close>

lemma pool_inv_cong:
  assumes "pool_inv N s"
    and "\<And>p. bnext (mem s' p) = bnext (mem s p)" and "\<And>p. bprev (mem s' p) = bprev (mem s p)"
    and "\<And>p. dev (mem s' p) = dev (mem s p)" and "\<And>p. blockno (mem s' p) = blockno (mem s p)"
  shows "pool_inv N s'"
proof -
  from assms(1) obtain bk where w: "pool_wf N bk s" and h: "hashed bk s"
    and u: "\<forall>x<N. \<forall>y<N. x \<noteq> y \<longrightarrow> ident s x = ident s y \<longrightarrow> ident s x = (0, 0)"
    unfolding pool_inv_def by blast
  have i: "ident s' = ident s" by (rule ext) (simp add: ident_def assms(4,5))
  have "pool_wf N bk s'" using w pool_wf_cong [OF assms(2,3)] by simp
  moreover have "hashed bk s'" using h by (simp add: hashed_def assms(5))
  ultimately show ?thesis unfolding pool_inv_def using u i by auto
qed

lemma pool_inv_binit:
  assumes "binit N (boot B d) = Inr s"
  shows "pool_inv N s"
proof -
  obtain s0 where s0: "binit N (boot B d) = Inr s0" "pool_wf N (bk_init N) s0"
    "\<forall>p. same_contents (mem s0 p) (zero_buf B)"
    using binit_ok [of N B d] by blast
  then have e: "s0 = s" using assms by simp
  have z: "\<And>x. ident s x = (0, 0)" "\<And>p. blockno (mem s p) = 0"
    using s0(3) unfolding e by (simp_all add: ident_def same_contents_def zero_buf_def)
  have "hashed (bk_init N) s"
    by (simp add: hashed_def z(2) bhashgetline_small bk_init_def)
  then show ?thesis unfolding pool_inv_def using s0(2) z(1) e by auto
qed

lemma pool_inv_bget:
  assumes inv: "pool_inv N s" and ret: "bget quiet pid dv bn s = Some (Inr (b, s'))"
  shows "pool_inv N s'"
proof -
  from inv obtain bk where w: "pool_wf N bk s" and hs: "hashed bk s"
    and u: "\<forall>x<N. \<forall>y<N. x \<noteq> y \<longrightarrow> ident s x = ident s y \<longrightarrow> ident s x = (0, 0)"
    unfolding pool_inv_def by blast
  have bk: "buckets (mem s) bk" and dist: "\<forall>i<MODNUM. distinct (bk i)"
    and disj: "\<forall>i<MODNUM. \<forall>k<MODNUM. i \<noteq> k \<longrightarrow> set (bk i) \<inter> set (bk k) = {}"
    and cov: "\<And>x. (x < N) = (\<exists>i<MODNUM. x \<in> set (bk i))"
    using w by (simp_all add: pool_wf_def)
  let ?h = "bhashgetline bn"
  obtain r where look: "bhashget ?h dv bn s = Some (Inr r)"
    using bhashget_find [OF bk bhashgetline_less] by blast
  show ?thesis
  proof (cases "r = Null")
    case False
    have "bget quiet pid dv bn s =
     (if lock (mem s r) = None
      then Some (Inr (r, s\<lparr>mem := (mem s)(r := (mem s r)
             \<lparr>refcnt := refcnt (mem s r) + 1, lock := Some pid\<rparr>)\<rparr>))
      else None)"
      by (rule bget_hit [OF look False])
    with ret have "s' = s\<lparr>mem := (mem s)(r := (mem s r)
             \<lparr>refcnt := refcnt (mem s r) + 1, lock := Some pid\<rparr>)\<rparr>"
      by (auto split: if_splits)
    then show ?thesis by (intro pool_inv_cong [OF inv]) simp_all
  next
    case True
    then have miss: "bhashget ?h dv bn s = Some (Inr Null)" using look by simp
    obtain v j where b: "b = Slot v" and j: "j < MODNUM" "v \<in> set (bk j)"
      and w': "pool_wf N (moved bk v j ?h) s'"
      and rl: "relinked (s\<lparr>mem := (mem s)(Slot v := (mem s (Slot v))
              \<lparr>dev := dv, blockno := bn, valid := False, refcnt := 1, lock := Some pid\<rparr>)\<rparr>) s'"
      using bget_miss_returns [where env = quiet, OF w miss quiet_id ret] by blast
    have id': "\<And>x. ident s' x = (if x = v then (dv, bn) else ident s x)"
      using relinked_fields(2,3) [OF rl] by (simp add: ident_def)
    have bn': "\<And>x. blockno (mem s' (Slot x)) = (if x = v then bn else blockno (mem s (Slot x)))"
      using relinked_fields(3) [OF rl] by simp
    have hsD: "\<And>i x. i < MODNUM \<Longrightarrow> x \<in> set (bk i) \<Longrightarrow>
        bhashgetline (blockno (mem s (Slot x))) = i"
      using hs unfolding hashed_def by blast
    have nomatch: "\<forall>x\<in>set (bk ?h). ident s x \<noteq> (dv, bn)"
      using bhashget_miss_iff [OF w bhashgetline_less, of bn dv bn] miss by simp
    have none: "ident s x \<noteq> (dv, bn)" if "x < N" for x
    proof
      assume e: "ident s x = (dv, bn)"
      have "\<exists>i<MODNUM. x \<in> set (bk i)" using cov [of x] that by simp
      then obtain i where i: "i < MODNUM" "x \<in> set (bk i)" by blast
      have "bhashgetline (blockno (mem s (Slot x))) = i" by (rule hsD [OF i])
      moreover have "blockno (mem s (Slot x)) = bn" using e by (simp add: ident_def)
      ultimately have "x \<in> set (bk ?h)" using i by simp
      then show False using nomatch e by blast
    qed
    have "hashed (moved bk v j ?h) s'"
      unfolding hashed_def
    proof (intro allI impI ballI)
      fix i x assume i: "i < MODNUM" and x: "x \<in> set (moved bk v j ?h i)"
      note m = moved_mem [OF dist disj j(1) bhashgetline_less j(2) i, of x bn]
      show "bhashgetline (blockno (mem s' (Slot x))) = i"
      proof (cases "x = v")
        case True
        then show ?thesis using m x by (simp add: bn')
      next
        case False
        then have "x \<in> set (bk i)" using m x by simp
        then show ?thesis using hsD [OF i] False by (simp add: bn')
      qed
    qed
    moreover have "\<forall>x<N. \<forall>y<N. x \<noteq> y \<longrightarrow> ident s' x = ident s' y \<longrightarrow> ident s' x = (0, 0)"
    proof (intro allI impI)
      fix x y assume a: "x < N" "y < N" "x \<noteq> y" "ident s' x = ident s' y"
      show "ident s' x = (0, 0)"
      proof (cases "x = v \<or> y = v")
        case True
        then show ?thesis
        proof
          assume "x = v"
          then have "ident s y = (dv, bn)" using a(3,4) by (simp add: id')
          then show ?thesis using none [OF a(2)] by simp
        next
          assume "y = v"
          then have "ident s x = (dv, bn)" using a(3,4) by (simp add: id')
          then show ?thesis using none [OF a(1)] by simp
        qed
      next
        case False
        then have "ident s x = ident s y" "ident s' x = ident s x" using a(4) by (simp_all add: id')
        then show ?thesis using u a(1,2,3) by simp
      qed
    qed
    ultimately show ?thesis unfolding pool_inv_def using w' by blast
  qed
qed

lemma pool_inv_bread:
  assumes inv: "pool_inv N s" and ret: "bread quiet pid dv bn s = Some (Inr (b, s'))"
  shows "pool_inv N s'"
proof -
  from ret obtain s1 where g: "bget quiet pid dv bn s = Some (Inr (b, s1))"
    by (auto simp: bread_def Let_def split: option.splits sum.splits if_splits)
  have i1: "pool_inv N s1" by (rule pool_inv_bget [OF inv g])
  have "s' = (if valid (mem s1 b) then s1
     else s1\<lparr>mem := (mem s1)(b := (mem s1 b)
             \<lparr>data := disk s1 (dev (mem s1 b), blockno (mem s1 b)), valid := True\<rparr>),
           xfers := xfers s1 @ [(b, False)]\<rparr>)"
    using bread_of_bget [OF g] ret by simp
  then show ?thesis by (intro pool_inv_cong [OF i1]) simp_all
qed

lemma reachable_pool_inv: "reachable N s \<Longrightarrow> pool_inv N s"
proof (induction rule: reachable.induct)
  case (r_binit BSIZE d s)
  then show ?case by (rule pool_inv_binit)
next
  case (r_ticks s t)
  then show ?case by (intro pool_inv_cong [OF r_ticks.IH]) simp_all
next
  case (r_bget s pid dv bn b s')
  then show ?case using pool_inv_bget by blast
next
  case (r_bread s pid dv bn b s')
  then show ?case using pool_inv_bread by blast
next
  case (r_bwrite s pid b s')
  then have "s' = virtio_disk_rw b True s" by (auto simp: bwrite_def split: if_splits)
  then show ?case
    by (intro pool_inv_cong [OF r_bwrite.IH]) (simp_all add: virtio_disk_rw_def)
next
  case (r_brelse s pid b s')
  then have "b \<noteq> Null" "holdingsleep pid b s" by (auto simp: brelse_def split: if_splits)
  then have "s' = s\<lparr>mem := (mem s)(b := (mem s b)
           \<lparr>lock := None, refcnt := refcnt (mem s b) - 1, timestamp := ticks s\<rparr>)\<rparr>"
    using brelse_effect r_brelse.hyps(2) by simp
  then show ?case by (intro pool_inv_cong [OF r_brelse.IH]) simp_all
next
  case (r_bpin s b s')
  then have "s' = s\<lparr>mem := (mem s)(b := (mem s b)\<lparr>refcnt := refcnt (mem s b) + 1\<rparr>)\<rparr>"
    by (auto simp: bpin_def split: if_splits)
  then show ?case by (intro pool_inv_cong [OF r_bpin.IH]) simp_all
next
  case (r_bunpin s b s')
  then have "s' = s\<lparr>mem := (mem s)(b := (mem s b)\<lparr>refcnt := refcnt (mem s b) - 1\<rparr>)\<rparr>"
    by (auto simp: bunpin_def split: if_splits)
  then show ?case by (intro pool_inv_cong [OF r_bunpin.IH]) simp_all
qed


lemma carriers_finite: "finite (carriers N s k)"
  by (rule finite_subset [of _ "{..<N}"]) (auto simp: carriers_def)

text \<open>
  The slots that a miss has recycled since \<^verbatim>\<open>binit\<close> are recorded by \<open>reached\<close>. A miss
  means that no slot of the whole pool carries the identity asked for, so a miss gives an
  identity its first carrier, and a hit changes no identity at all.
\<close>

lemma miss_no_carrier:
  assumes w: "pool_wf N bk s" and hs: "hashed bk s"
    and miss: "bhashget (bhashgetline bn) dv bn s = Some (Inr Null)" and x: "x < N"
  shows "ident s x \<noteq> (dv, bn)"
proof
  assume e: "ident s x = (dv, bn)"
  have cov: "(x < N) = (\<exists>i<MODNUM. x \<in> set (bk i))" using w by (simp add: pool_wf_def)
  then obtain i where i: "i < MODNUM" "x \<in> set (bk i)" using x by blast
  have "bhashgetline (blockno (mem s (Slot x))) = i"
    using hs i unfolding hashed_def by blast
  moreover have "blockno (mem s (Slot x)) = bn" using e by (simp add: ident_def)
  ultimately have "x \<in> set (bk (bhashgetline bn))" using i by simp
  moreover have "\<forall>x\<in>set (bk (bhashgetline bn)). ident s x \<noteq> (dv, bn)"
    using bhashget_miss_iff [OF w bhashgetline_less, of bn dv bn] miss by simp
  ultimately show False using e by blast
qed

text \<open>
  What a returning \<^verbatim>\<open>bget\<close> does to the identities: on a hit nothing; on a miss no slot
  of the pool carried the identity asked for, and the slot handed out is now the only one
  whose identity has changed.
\<close>

lemma bget_ident:
  assumes inv: "pool_inv N s" and ret: "bget quiet pid dv bn s = Some (Inr (b, s'))"
  shows "(bhashget (bhashgetline bn) dv bn s \<noteq> Some (Inr Null) \<longrightarrow> ident s' = ident s) \<and>
         (bhashget (bhashgetline bn) dv bn s = Some (Inr Null) \<longrightarrow>
            (\<exists>v<N. b = Slot v \<and> (\<forall>x. ident s' x = (if x = v then (dv, bn) else ident s x)) \<and>
                    (\<forall>x<N. ident s x \<noteq> (dv, bn))))"
proof -
  from inv obtain bk where w: "pool_wf N bk s" and hs: "hashed bk s"
    unfolding pool_inv_def by blast
  have bk: "buckets (mem s) bk" and cov: "\<And>x. (x < N) = (\<exists>i<MODNUM. x \<in> set (bk i))"
    using w by (simp_all add: pool_wf_def)
  obtain r where look: "bhashget (bhashgetline bn) dv bn s = Some (Inr r)"
    using bhashget_find [OF bk bhashgetline_less] by blast
  show ?thesis
  proof (cases "r = Null")
    case False
    have "bget quiet pid dv bn s =
     (if lock (mem s r) = None
      then Some (Inr (r, s\<lparr>mem := (mem s)(r := (mem s r)
             \<lparr>refcnt := refcnt (mem s r) + 1, lock := Some pid\<rparr>)\<rparr>))
      else None)"
      by (rule bget_hit [OF look False])
    with ret have "s' = s\<lparr>mem := (mem s)(r := (mem s r)
             \<lparr>refcnt := refcnt (mem s r) + 1, lock := Some pid\<rparr>)\<rparr>"
      by (auto split: if_splits)
    then have "ident s' = ident s" by (intro ext) (simp add: ident_def)
    then show ?thesis using look False by simp
  next
    case True
    then have miss: "bhashget (bhashgetline bn) dv bn s = Some (Inr Null)" using look by simp
    obtain v j where b: "b = Slot v" and j: "j < MODNUM" "v \<in> set (bk j)"
      and rl: "relinked (s\<lparr>mem := (mem s)(Slot v := (mem s (Slot v))
              \<lparr>dev := dv, blockno := bn, valid := False, refcnt := 1, lock := Some pid\<rparr>)\<rparr>) s'"
      using bget_miss_returns [where env = quiet, OF w miss quiet_id ret] by blast
    have "v < N" using cov [of v] j by blast
    moreover have "\<forall>x. ident s' x = (if x = v then (dv, bn) else ident s x)"
      using relinked_fields(2,3) [OF rl] by (simp add: ident_def)
    moreover have "\<forall>x<N. ident s x \<noteq> (dv, bn)"
      using miss_no_carrier [OF w hs miss] by blast
    ultimately show ?thesis using miss b by blast
  qed
qed

lemma bread_ident:
  assumes inv: "pool_inv N s" and ret: "bread quiet pid dv bn s = Some (Inr (b, s'))"
  shows "(bhashget (bhashgetline bn) dv bn s \<noteq> Some (Inr Null) \<longrightarrow> ident s' = ident s) \<and>
         (bhashget (bhashgetline bn) dv bn s = Some (Inr Null) \<longrightarrow>
            (\<exists>v<N. b = Slot v \<and> (\<forall>x. ident s' x = (if x = v then (dv, bn) else ident s x)) \<and>
                    (\<forall>x<N. ident s x \<noteq> (dv, bn))))"
proof -
  from ret obtain s1 where g: "bget quiet pid dv bn s = Some (Inr (b, s1))"
    by (auto simp: bread_def Let_def split: option.splits sum.splits if_splits)
  have "s' = (if valid (mem s1 b) then s1
     else s1\<lparr>mem := (mem s1)(b := (mem s1 b)
             \<lparr>data := disk s1 (dev (mem s1 b), blockno (mem s1 b)), valid := True\<rparr>),
           xfers := xfers s1 @ [(b, False)]\<rparr>)"
    using bread_of_bget [OF g] ret by simp
  then have "ident s' = ident s1" by (intro ext) (simp add: ident_def)
  then show ?thesis using bget_ident [OF inv g] by simp
qed

lemma reached_reachable: "reached N s R \<Longrightarrow> reachable N s"
proof (induction rule: reached.induct)
  case (h_binit BSIZE d s)
  then show ?case by (rule reachable.r_binit)
next
  case (h_ticks s R t)
  then show ?case by (intro reachable.r_ticks)
next
  case (h_bget_hit s R bn dv pid b s')
  then show ?case using reachable.r_bget by blast
next
  case (h_bget_miss s R bn dv pid v s')
  then show ?case using reachable.r_bget by blast
next
  case (h_bread_hit s R bn dv pid b s')
  then show ?case using reachable.r_bread by blast
next
  case (h_bread_miss s R bn dv pid v s')
  then show ?case using reachable.r_bread by blast
next
  case (h_bwrite s R pid b s')
  then show ?case using reachable.r_bwrite by blast
next
  case (h_brelse s R pid b s')
  then show ?case using reachable.r_brelse by blast
next
  case (h_bpin s R b s')
  then show ?case using reachable.r_bpin by blast
next
  case (h_bunpin s R b s')
  then show ?case using reachable.r_bunpin by blast
qed

lemma reachable_reached: "reachable N s \<Longrightarrow> \<exists>R. reached N s R"
proof (induction rule: reachable.induct)
  case (r_binit BSIZE d s)
  then show ?case using reached.h_binit by blast
next
  case (r_ticks s t)
  then show ?case using reached.h_ticks by blast
next
  case (r_bget s pid dv bn b s')
  then obtain R where R: "reached N s R" by blast
  have inv: "pool_inv N s" by (rule reachable_pool_inv [OF r_bget.hyps(1)])
  show ?case
  proof (cases "bhashget (bhashgetline bn) dv bn s = Some (Inr Null)")
    case True
    then obtain v where "b = Slot v" using bget_ident [OF inv r_bget.hyps(2)] by blast
    then show ?thesis using reached.h_bget_miss [OF R True] r_bget.hyps(2) by blast
  next
    case False
    then show ?thesis using reached.h_bget_hit [OF R False r_bget.hyps(2)] by blast
  qed
next
  case (r_bread s pid dv bn b s')
  then obtain R where R: "reached N s R" by blast
  have inv: "pool_inv N s" by (rule reachable_pool_inv [OF r_bread.hyps(1)])
  show ?case
  proof (cases "bhashget (bhashgetline bn) dv bn s = Some (Inr Null)")
    case True
    then obtain v where "b = Slot v" using bread_ident [OF inv r_bread.hyps(2)] by blast
    then show ?thesis using reached.h_bread_miss [OF R True] r_bread.hyps(2) by blast
  next
    case False
    then show ?thesis using reached.h_bread_hit [OF R False r_bread.hyps(2)] by blast
  qed
next
  case (r_bwrite s pid b s')
  then show ?case using reached.h_bwrite by blast
next
  case (r_brelse s pid b s')
  then show ?case using reached.h_brelse by blast
next
  case (r_bpin s b s')
  then show ?case using reached.h_bpin by blast
next
  case (r_bunpin s b s')
  then show ?case using reached.h_bunpin by blast
qed

text \<open>
  The invariant of the recorded runs: a slot that was never recycled still carries the
  identity \<open>(0, 0)\<close> of zeroed memory, and a recycled slot is the only carrier of its
  identity in the whole pool.
\<close>

lemma reached_inv:
  assumes "reached N s R"
  shows "R \<subseteq> {..<N} \<and> (\<forall>x<N. x \<notin> R \<longrightarrow> ident s x = (0, 0)) \<and>
         (\<forall>x<N. \<forall>y<N. x \<in> R \<longrightarrow> ident s x = ident s y \<longrightarrow> x = y)"
  using assms
proof (induction rule: reached.induct)
  case (h_binit BSIZE d s)
  obtain s0 where s0: "binit N (boot BSIZE d) = Inr s0"
    "\<forall>p. same_contents (mem s0 p) (zero_buf BSIZE)"
    using binit_ok [of N BSIZE d] by blast
  then have "s0 = s" using h_binit by simp
  then have "\<And>x. ident s x = (0, 0)"
    using s0(2) by (simp add: ident_def same_contents_def zero_buf_def)
  then show ?case by simp
next
  case (h_ticks s R t)
  have "ident (s\<lparr>ticks := t\<rparr>) = ident s" by (intro ext) (simp add: ident_def)
  then show ?case using h_ticks.IH by simp
next
  case (h_bget_hit s R bn dv pid b s')
  have "ident s' = ident s"
    using bget_ident [OF reachable_pool_inv [OF reached_reachable [OF h_bget_hit.hyps(1)]]
        h_bget_hit.hyps(3)] h_bget_hit.hyps(2) by blast
  then show ?case using h_bget_hit.IH by simp
next
  case (h_bget_miss s R bn dv pid v s')
  have st: "v < N" "\<And>x. ident s' x = (if x = v then (dv, bn) else ident s x)"
    "\<And>x. x < N \<Longrightarrow> ident s x \<noteq> (dv, bn)"
    using bget_ident [OF reachable_pool_inv [OF reached_reachable [OF h_bget_miss.hyps(1)]]
        h_bget_miss.hyps(3)] h_bget_miss.hyps(2) by auto
  have a: "insert v R \<subseteq> {..<N}" using h_bget_miss.IH st(1) by simp
  have b: "\<forall>x<N. x \<notin> insert v R \<longrightarrow> ident s' x = (0, 0)"
    using h_bget_miss.IH st(2) by simp
  have c: "\<forall>x<N. \<forall>y<N. x \<in> insert v R \<longrightarrow> ident s' x = ident s' y \<longrightarrow> x = y"
  proof (intro allI impI)
    fix x y assume xy: "x < N" "y < N" "x \<in> insert v R" "ident s' x = ident s' y"
    show "x = y"
    proof (cases "x = v")
      case True
      then have "ident s' y = (dv, bn)" using xy(4) st(2) by simp
      then have "y = v" using st(2) [of y] st(3) [OF xy(2)] by (simp split: if_splits)
      then show ?thesis using True by simp
    next
      case False
      then have xR: "x \<in> R" using xy(3) by simp
      have "y \<noteq> v"
      proof
        assume "y = v"
        then have "ident s x = (dv, bn)" using xy(4) st(2) False by simp
        then show False using st(3) [OF xy(1)] by simp
      qed
      then have "ident s x = ident s y" using xy(4) st(2) False by simp
      then show ?thesis using h_bget_miss.IH xy(1,2) xR by blast
    qed
  qed
  show ?case using a b c by blast
next
  case (h_bread_hit s R bn dv pid b s')
  have "ident s' = ident s"
    using bread_ident [OF reachable_pool_inv [OF reached_reachable [OF h_bread_hit.hyps(1)]]
        h_bread_hit.hyps(3)] h_bread_hit.hyps(2) by blast
  then show ?case using h_bread_hit.IH by simp
next
  case (h_bread_miss s R bn dv pid v s')
  have st: "v < N" "\<And>x. ident s' x = (if x = v then (dv, bn) else ident s x)"
    "\<And>x. x < N \<Longrightarrow> ident s x \<noteq> (dv, bn)"
    using bread_ident [OF reachable_pool_inv [OF reached_reachable [OF h_bread_miss.hyps(1)]]
        h_bread_miss.hyps(3)] h_bread_miss.hyps(2) by auto
  have a: "insert v R \<subseteq> {..<N}" using h_bread_miss.IH st(1) by simp
  have b: "\<forall>x<N. x \<notin> insert v R \<longrightarrow> ident s' x = (0, 0)"
    using h_bread_miss.IH st(2) by simp
  have c: "\<forall>x<N. \<forall>y<N. x \<in> insert v R \<longrightarrow> ident s' x = ident s' y \<longrightarrow> x = y"
  proof (intro allI impI)
    fix x y assume xy: "x < N" "y < N" "x \<in> insert v R" "ident s' x = ident s' y"
    show "x = y"
    proof (cases "x = v")
      case True
      then have "ident s' y = (dv, bn)" using xy(4) st(2) by simp
      then have "y = v" using st(2) [of y] st(3) [OF xy(2)] by (simp split: if_splits)
      then show ?thesis using True by simp
    next
      case False
      then have xR: "x \<in> R" using xy(3) by simp
      have "y \<noteq> v"
      proof
        assume "y = v"
        then have "ident s x = (dv, bn)" using xy(4) st(2) False by simp
        then show False using st(3) [OF xy(1)] by simp
      qed
      then have "ident s x = ident s y" using xy(4) st(2) False by simp
      then show ?thesis using h_bread_miss.IH xy(1,2) xR by blast
    qed
  qed
  show ?case using a b c by blast
next
  case (h_bwrite s R pid b s')
  then have "s' = virtio_disk_rw b True s" by (auto simp: bwrite_def split: if_splits)
  then have "ident s' = ident s" by (intro ext) (simp add: ident_def virtio_disk_rw_def)
  then show ?case using h_bwrite.IH by simp
next
  case (h_brelse s R pid b s')
  then have "b \<noteq> Null" "holdingsleep pid b s" by (auto simp: brelse_def split: if_splits)
  then have "s' = s\<lparr>mem := (mem s)(b := (mem s b)
           \<lparr>lock := None, refcnt := refcnt (mem s b) - 1, timestamp := ticks s\<rparr>)\<rparr>"
    using brelse_effect h_brelse.hyps(2) by simp
  then have "ident s' = ident s" by (intro ext) (simp add: ident_def)
  then show ?case using h_brelse.IH by simp
next
  case (h_bpin s R b s')
  then have "s' = s\<lparr>mem := (mem s)(b := (mem s b)\<lparr>refcnt := refcnt (mem s b) + 1\<rparr>)\<rparr>"
    by (auto simp: bpin_def split: if_splits)
  then have "ident s' = ident s" by (intro ext) (simp add: ident_def)
  then show ?case using h_bpin.IH by simp
next
  case (h_bunpin s R b s')
  then have "s' = s\<lparr>mem := (mem s)(b := (mem s b)\<lparr>refcnt := refcnt (mem s b) - 1\<rparr>)\<rparr>"
    by (auto simp: bunpin_def split: if_splits)
  then have "ident s' = ident s" by (intro ext) (simp add: ident_def)
  then show ?case using h_bunpin.IH by simp
qed

text \<open>
  A pool of three buffers: every lookup starts in bucket 0, which holds the slots in the
  order 2, 1, 0, and the first miss recycles slot 2, the first slot of the scan.
\<close>

lemma pool3_props:
  shows "binit 3 (boot 1 ex_disk) = Inr pool3" and "pool_wf 3 (bk_init 3) pool3"
    and "\<And>p. same_contents (mem pool3 p) (zero_buf 1)"
proof -
  obtain s where s: "binit 3 (boot 1 ex_disk) = Inr s" "pool_wf 3 (bk_init 3) s"
    "\<forall>p. same_contents (mem s p) (zero_buf 1)"
    using binit_ok [of 3 1 ex_disk] by blast
  then have e: "pool3 = s" by (simp add: pool3_def)
  show "binit 3 (boot 1 ex_disk) = Inr pool3" and "pool_wf 3 (bk_init 3) pool3"
    and "\<And>p. same_contents (mem pool3 p) (zero_buf 1)"
    using s unfolding e by simp_all
qed

lemma scan_order_bk_init: "scan_order (bk_init N) = rev [0..<N]"
proof -
  have "map (bk_init N) [0..<MODNUM] = rev [0..<N] # replicate 18 []"
    by (simp add: MODNUM_def bk_init_def upt_rec [of 0] upt_rec [of "Suc _"] numeral_eq_Suc)
  then show ?thesis by (simp add: scan_order_def)
qed

lemma pool3_read_first:
  shows "bhashget (bhashgetline 1) 1 1 pool3 = Some (Inr Null)"
    and "bread quiet 1 1 1 pool3 = Some (Inr (Slot 2, pool3_read))"
proof -
  show miss: "bhashget (bhashgetline 1) 1 1 pool3 = Some (Inr Null)"
    using bhashget_miss_iff [OF pool3_props(2) bhashgetline_less, of 1 1 1]
    by (simp add: bk_init_def bhashgetline_small)
  have z: "\<And>p. refcnt (mem pool3 p) = 0 \<and> timestamp (mem pool3 p) = 0 \<and> lock (mem pool3 p) = None"
    using pool3_props(3) by (simp add: same_contents_def zero_buf_def)
  have "\<exists>x<3. refcnt (mem pool3 (Slot x)) = 0 \<and> timestamp (mem pool3 (Slot x)) < 0xFFFFFFFF"
    using z by (intro exI [of _ 0]) simp
  then obtain v s1 where g: "bget quiet 1 1 1 pool3 = Some (Inr (Slot v, s1))"
    using bget_miss_ok [where env = quiet, OF pool3_props(2) miss _ _ quiet_id, of 1] z by auto
  obtain v' where v': "Slot v = Slot v'"
    and lru: "is_lru (mem pool3) (map Slot (scan_order (bk_init 3))) (Slot v')"
    using bget_miss_returns [where env = quiet, OF pool3_props(2) miss quiet_id g] by blast
  have so: "map Slot (scan_order (bk_init 3)) = [Slot 2, Slot 1, Slot 0]"
    by (simp add: scan_order_bk_init upt_rec [of 0] upt_rec [of "Suc _"] numeral_eq_Suc)
  obtain as cs where sp: "[Slot 2, Slot 1, Slot 0] = as @ Slot v' # cs"
    and pre: "\<forall>a\<in>set as. refcnt (mem pool3 a) = 0 \<longrightarrow>
               timestamp (mem pool3 (Slot v')) < timestamp (mem pool3 a)"
    using lru unfolding is_lru_def so by blast
  have "as = []"
  proof (cases as)
    case (Cons a list)
    then have "a \<in> set as" by simp
    moreover have "refcnt (mem pool3 a) = 0" using z by blast
    ultimately have "timestamp (mem pool3 (Slot v')) < timestamp (mem pool3 a)"
      using pre by blast
    moreover have "timestamp (mem pool3 a) = 0" using z by blast
    ultimately show ?thesis by simp
  qed simp
  then have "v' = 2" using sp by simp
  then have v2: "v = 2" using v' by simp
  show "bread quiet 1 1 1 pool3 = Some (Inr (Slot 2, pool3_read))"
    using bread_of_bget [OF g] unfolding v2 pool3_read_def by (simp only: option.sel sum.sel snd_conv)
qed

lemma pool3_read_reached: "reached 3 pool3_read {2}"
  using reached.h_bread_miss [OF reached.h_binit [OF pool3_props(1)] pool3_read_first] .

lemma pool3_read_ident2: "ident pool3_read 2 = (1, 1)"
  using bread_ident [OF pool_inv_binit [OF pool3_props(1)] pool3_read_first(2)] pool3_read_first(1)
  by auto

text \<open>
  C2, as the code has it: in every state that sequential calls of \<^verbatim>\<open>bget\<close>, \<^verbatim>\<open>bread\<close>,
  \<^verbatim>\<open>bwrite\<close>, \<^verbatim>\<open>brelse\<close>, \<^verbatim>\<open>bpin\<close> and \<^verbatim>\<open>bunpin\<close> reach from \<^verbatim>\<open>binit\<close>, with any
  progress of \<^verbatim>\<open>ticks\<close> in between, and with \<open>R\<close> the set of slots that a miss has recycled
  on the way: a slot outside \<open>R\<close> still carries the identity \<open>(0, 0)\<close> that \<^verbatim>\<open>binit\<close> left
  in it; two different slots carry the same identity only if neither of them has ever
  been recycled; so every identity has at most one carrier in the whole pool, except
  \<open>(0, 0)\<close> while it is carried by never-recycled slots only. No call of \<^verbatim>\<open>bget\<close> or
  \<^verbatim>\<open>bread\<close> gives an identity, \<open>(0, 0)\<close> included, a second carrier.
\<close>

theorem identity_shared_only_unrecycled:
  assumes "reached N s R"
  shows "(\<forall>x<N. x \<notin> R \<longrightarrow> ident s x = (0, 0)) \<and>
         (\<forall>x<N. \<forall>y<N. x \<noteq> y \<longrightarrow> ident s x = ident s y \<longrightarrow> x \<notin> R \<and> y \<notin> R) \<and>
         (\<forall>k. card (carriers N s k) \<le> 1 \<or> (k = (0, 0) \<and> carriers N s k \<inter> R = {}))"
proof -
  have a: "\<forall>x<N. x \<notin> R \<longrightarrow> ident s x = (0, 0)"
    and u: "\<forall>x<N. \<forall>y<N. x \<in> R \<longrightarrow> ident s x = ident s y \<longrightarrow> x = y"
    using reached_inv [OF assms] by blast+
  have b: "\<forall>x<N. \<forall>y<N. x \<noteq> y \<longrightarrow> ident s x = ident s y \<longrightarrow> x \<notin> R \<and> y \<notin> R"
  proof (intro allI impI)
    fix x y assume xy: "x < N" "y < N" "x \<noteq> y" "ident s x = ident s y"
    have "x \<notin> R" using u xy by blast
    moreover have "y \<notin> R" using u xy(1,2,3) xy(4) [symmetric] by blast
    ultimately show "x \<notin> R \<and> y \<notin> R" ..
  qed
  have c: "\<forall>k. card (carriers N s k) \<le> 1 \<or> (k = (0, 0) \<and> carriers N s k \<inter> R = {})"
  proof
    fix k
    show "card (carriers N s k) \<le> 1 \<or> (k = (0, 0) \<and> carriers N s k \<inter> R = {})"
    proof (cases "\<forall>x\<in>carriers N s k. \<forall>y\<in>carriers N s k. x = y")
      case True
      then show ?thesis using carriers_finite [of N s k] by (simp add: card_le_Suc0_iff_eq)
    next
      case False
      then obtain x y where xy: "x < N" "y < N" "ident s x = k" "ident s y = k" "x \<noteq> y"
        by (auto simp: carriers_def)
      then have nR: "x \<notin> R" "y \<notin> R" using b by simp_all
      then have k0: "k = (0, 0)" using a xy by auto
      have "carriers N s k \<inter> R = {}"
      proof (rule ccontr)
        assume "carriers N s k \<inter> R \<noteq> {}"
        then obtain z where z: "z < N" "ident s z = k" "z \<in> R" by (auto simp: carriers_def)
        then have "z = x" using u xy(1,3) by simp
        then show False using z(3) nR(1) by simp
      qed
      then show ?thesis using k0 by simp
    qed
  qed
  show ?thesis using a b c by blast
qed

theorem identity_shared_only_unrecycled_witness:
  "reached 3 pool3_read {2} \<and>
   ident pool3_read 0 = (0, 0) \<and> ident pool3_read 1 = (0, 0) \<and> ident pool3_read 2 = (1, 1) \<and>
   carriers 3 pool3_read (0, 0) = {0, 1} \<and> carriers 3 pool3_read (0, 0) \<inter> {2} = {} \<and>
   carriers 3 pool3_read (1, 1) = {2} \<and> card (carriers 3 pool3_read (1, 1)) \<le> 1"
proof -
  have t: "\<forall>x<3. x \<notin> {2::nat} \<longrightarrow> ident pool3_read x = (0, 0)"
    "\<forall>k. card (carriers 3 pool3_read k) \<le> 1 \<or>
       (k = (0, 0) \<and> carriers 3 pool3_read k \<inter> {2} = {})"
    using identity_shared_only_unrecycled [OF pool3_read_reached] by blast+
  have i: "ident pool3_read 0 = (0, 0)" "ident pool3_read 1 = (0, 0)" using t(1) by simp_all
  have lt: "\<And>x::nat. (x < 3) = (x = 0 \<or> x = 1 \<or> x = 2)" by auto
  have c0: "carriers 3 pool3_read (0, 0) = {0, 1}"
    using i pool3_read_ident2 by (auto simp: carriers_def lt)
  have c1: "carriers 3 pool3_read (1, 1) = {2}"
    using i pool3_read_ident2 by (auto simp: carriers_def lt)
  have "card (carriers 3 pool3_read (1, 1)) \<le> 1" using t(2) by (simp add: c1)
  then show ?thesis using pool3_read_reached i pool3_read_ident2 c0 c1 by simp
qed

lemma pool2_props:
  shows "binit 2 (boot 1 ex_disk) = Inr pool2"
    and "\<And>p. same_contents (mem pool2 p) (zero_buf 1)"
proof -
  obtain s where s: "binit 2 (boot 1 ex_disk) = Inr s"
    "\<forall>p. same_contents (mem s p) (zero_buf 1)"
    using binit_ok [of 2 1 ex_disk] by blast
  then have e: "pool2 = s" by (simp add: pool2_def)
  show "binit 2 (boot 1 ex_disk) = Inr pool2" "\<And>p. same_contents (mem pool2 p) (zero_buf 1)"
    using s unfolding e by simp_all
qed

text \<open>
  C2 as stated fails right after initialisation: \<^verbatim>\<open>binit\<close> leaves the identity
  \<open>(0, 0)\<close> of zeroed memory in every buffer, so in a pool of two buffers both carry the
  same identity.
\<close>

theorem binit_shares_identity_counterexample:
  "binit 2 (boot 1 ex_disk) = Inr pool2 \<and> reachable 2 pool2 \<and>
   ident pool2 0 = (0, 0) \<and> ident pool2 1 = (0, 0) \<and>
   carriers 2 pool2 (0, 0) = {0, 1} \<and> card (carriers 2 pool2 (0, 0)) = 2"
proof -
  have i: "\<And>x. ident pool2 x = (0, 0)"
    using pool2_props(2) by (simp add: ident_def same_contents_def zero_buf_def)
  then have c: "carriers 2 pool2 (0, 0) = {0, 1}" by (auto simp: carriers_def)
  have "reachable 2 pool2" by (rule reachable.r_binit [OF pool2_props(1)])
  then show ?thesis using pool2_props(1) i c by simp
qed

section \<open>Pinning, writing back and releasing\<close>

text \<open>
  C10: \<^verbatim>\<open>bpin\<close> and \<^verbatim>\<open>bunpin\<close> of a buffer return, the first with the reference count
  of the buffer one higher, the second with it one lower, and change nothing else: in
  every buffer the identity, the valid flag, the payload, the timestamp, the content lock
  and the \<^verbatim>\<open>next\<close>/\<^verbatim>\<open>prev\<close> pointers are as before, so every bucket holds the slots it
  held, and \<^verbatim>\<open>ticks\<close>, the disk and the transfer log are as before. In particular a pin
  does not refresh the timestamp.
\<close>

theorem bpin_bunpin_frame:
  assumes "b \<noteq> Null"
  shows "\<exists>s1 s2. bpin b s = Inr s1 \<and> bunpin b s = Inr s2 \<and>
     refcnt (mem s1 b) = refcnt (mem s b) + 1 \<and>
     refcnt (mem s2 b) = refcnt (mem s b) - 1 \<and>
     only_refcnt b s s1 \<and> only_refcnt b s s2"
  using assms by (simp add: bpin_def bunpin_def only_refcnt_upd)

theorem bpin_bunpin_frame_witness:
  "\<exists>s1 s2. bpin (Slot 0) pool1_read = Inr s1 \<and> bunpin (Slot 0) pool1_read = Inr s2 \<and>
     refcnt (mem pool1_read (Slot 0)) = 1 \<and>
     refcnt (mem s1 (Slot 0)) = 2 \<and> refcnt (mem s2 (Slot 0)) = 0 \<and>
     only_refcnt (Slot 0) pool1_read s1 \<and> only_refcnt (Slot 0) pool1_read s2"
proof -
  have r: "refcnt (mem pool1_read (Slot 0)) = 1"
    using pool1_read_props(3) by (simp add: same_contents_def)
  have n: "Slot 0 \<noteq> Null" by simp
  show ?thesis using bpin_bunpin_frame [OF n, of pool1_read] r by simp
qed

text \<open>
  C7: \<^verbatim>\<open>bwrite\<close> of a buffer panics when the caller does not hold its content lock. When
  the caller holds it, \<^verbatim>\<open>bwrite\<close> returns after one device write of the payload to the
  block that the buffer names, which is appended to the transfer log; the memory, and
  with it the content lock, the reference count, the identity, the valid flag and the
  timestamp of every buffer, is unchanged, and the caller still holds the lock.
\<close>

theorem bwrite_contract:
  assumes "b \<noteq> Null"
  shows "(\<not> holdingsleep pid b s \<longrightarrow> bwrite pid b s = Inl (Panic ''bwrite'')) \<and>
     (holdingsleep pid b s \<longrightarrow>
        (\<exists>s'. bwrite pid b s = Inr s' \<and>
           xfers s' = xfers s @ [(b, True)] \<and>
           disk s' = (disk s)((dev (mem s b), blockno (mem s b)) := data (mem s b)) \<and>
           mem s' = mem s \<and> ticks s' = ticks s \<and> holdingsleep pid b s'))"
  using assms by (simp add: bwrite_def virtio_disk_rw_def holdingsleep_def)

theorem bwrite_contract_witness:
  "bwrite 2 (Slot 0) pool1_read = Inl (Panic ''bwrite'') \<and>
   (\<exists>s'. bwrite 1 (Slot 0) pool1_read = Inr s' \<and>
      xfers s' = [(Slot 0, False), (Slot 0, True)] \<and> disk s' (1, 1) = [7] \<and>
      mem s' = mem pool1_read \<and> holdingsleep 1 (Slot 0) s')"
proof -
  have p: "lock (mem pool1_read (Slot 0)) = Some 1" "dev (mem pool1_read (Slot 0)) = 1"
    "blockno (mem pool1_read (Slot 0)) = 1" "data (mem pool1_read (Slot 0)) = [7]"
    using pool1_read_props(3) by (simp_all add: same_contents_def)
  have n: "Slot 0 \<noteq> Null" by simp
  show ?thesis
    using bwrite_contract [OF n, of 2 pool1_read] bwrite_contract [OF n, of 1 pool1_read]
      p pool1_read_props(6)
    by (auto simp: holdingsleep_def)
qed

end
